theory Spec2Isabelle
  imports Main "HOL-Library.Finite_Map" "HOL-Library.Sublist"
begin

section \<open>Strings and the regular expressions of machine.js\<close>

text \<open>
  A JavaScript string is a sequence of UTF-16 code units. A \<^typ>\<open>char\<close> stands for
  the code unit of the same number, so a \<^typ>\<open>string\<close> is a JavaScript string all of
  whose code units are below 256 (Latin-1). On that range \<open>String.prototype.trim\<close> and
  the class \<open>\s\<close> take away the code units 9 to 13, 32 and 160, the class \<open>.\<close>
  excludes the line terminators 10 and 13, and \<open>toLowerCase\<close> adds 32 to the code
  units 65 to 90 and 192 to 222 (215 apart).
\<close>

definition js_space :: "char \<Rightarrow> bool" where
  "js_space c = (let n = (of_char c :: nat) in (9 \<le> n \<and> n \<le> 13) \<or> n = 32 \<or> n = 160)"

definition line_terminator :: "char \<Rightarrow> bool" where
  "line_terminator c = (let n = (of_char c :: nat) in n = 10 \<or> n = 13)"

definition alnum :: "char \<Rightarrow> bool" where
  "alnum c = (let n = (of_char c :: nat) in
     (65 \<le> n \<and> n \<le> 90) \<or> (97 \<le> n \<and> n \<le> 122) \<or> (48 \<le> n \<and> n \<le> 57))"

text \<open>The class \<open>[A-Za-z0-9-]\<close> of a state's short name.\<close>

definition name_char :: "char \<Rightarrow> bool" where
  "name_char c = (alnum c \<or> c = CHR ''-'')"

text \<open>The class \<open>[A-Za-z0-9.\/-]\<close> of \<open>Machine.PATHPAT\<close> and of the command patterns.\<close>

definition path_char :: "char \<Rightarrow> bool" where
  "path_char c = (alnum c \<or> c = CHR ''.'' \<or> c = CHR ''/'' \<or> c = CHR ''-'')"

definition lower_char :: "char \<Rightarrow> char" where
  "lower_char c = (let n = (of_char c :: nat) in
     if (65 \<le> n \<and> n \<le> 90) \<or> (192 \<le> n \<and> n \<le> 222 \<and> n \<noteq> 215)
     then char_of (n + 32) else c)"

definition toLowerCase :: "string \<Rightarrow> string" where
  "toLowerCase s = map lower_char s"

definition trim :: "string \<Rightarrow> string" where
  "trim s = rev (dropWhile js_space (rev (dropWhile js_space s)))"

text \<open>\<open>str.match(Machine.PATHPAT)\<close>: the pattern has no anchors, so it matches as soon
  as one character of the string is in the class.\<close>

definition match_PATHPAT :: "string \<Rightarrow> bool" where
  "match_PATHPAT s = (\<exists>c \<in> set s. path_char c)"

text \<open>\<open>name.match(/[A-Za-z0-9-]+/)\<close>, not anchored either.\<close>

definition match_name :: "string \<Rightarrow> bool" where
  "match_name s = (\<exists>c \<in> set s. name_char c)"

text \<open>\<open>separator.match(/\.|\//)\<close>.\<close>

definition match_separator :: "string \<Rightarrow> bool" where
  "match_separator s = (\<exists>c \<in> set s. c = CHR ''.'' \<or> c = CHR ''/'')"

text \<open>\<open>s.lastIndexOf(c)\<close> for a one-character \<open>c\<close>: \<open>-1\<close> when absent.\<close>

definition lastIndexOf :: "string \<Rightarrow> char \<Rightarrow> int" where
  "lastIndexOf s c =
     (if c \<in> set s then int (length s) - 1 - int (length (takeWhile (\<lambda>x. x \<noteq> c) (rev s)))
      else - 1)"

text \<open>
  The command patterns all start with the command letter and \<open>\s+\<close>, followed by a
  group \<open>([A-Za-z0-9.\/-]+)\<close>. The classes of neighbouring pieces are disjoint, so
  the backtracking matcher has one way to match: each piece takes the longest run of its
  class. \<open>match_head\<close> is that common prefix, after the command letter: it gives the
  first group and what follows it.
\<close>

definition match_head :: "string \<Rightarrow> (string \<times> string) option" where
  "match_head s =
     (let ws = takeWhile js_space s; r = dropWhile js_space s;
          p = takeWhile path_char r; r' = dropWhile path_char r
      in if ws = [] \<or> p = [] then None else Some (p, r'))"

text \<open>\<open>Machine.PPAT = /^P\s+([A-Za-z0-9.\/-]+)$/\<close>\<close>

definition match_PPAT :: "string \<Rightarrow> string option" where
  "match_PPAT s =
     (case s of [] \<Rightarrow> None
      | c # r \<Rightarrow> if c \<noteq> CHR ''P'' then None
          else (case match_head r of None \<Rightarrow> None
                | Some (p, r') \<Rightarrow> if r' = [] then Some p else None))"

text \<open>\<open>Machine.CPAT = /^C\s+([A-Za-z0-9.\/-]+)\s+([A-Za-z0-9-]+)/\<close>\<close>

definition match_CPAT :: "string \<Rightarrow> (string \<times> string) option" where
  "match_CPAT s =
     (case s of [] \<Rightarrow> None
      | c # r \<Rightarrow> if c \<noteq> CHR ''C'' then None
          else (case match_head r of None \<Rightarrow> None
                | Some (p, r') \<Rightarrow>
                    (let ws = takeWhile js_space r'; r2 = dropWhile js_space r';
                         n = takeWhile name_char r2
                     in if ws = [] \<or> n = [] then None else Some (p, n))))"

text \<open>\<open>/^X\s+([A-Za-z0-9.\/-]+)\s+(.*)/\<close> for the letter \<open>X\<close>: \<open>Machine.DPAT\<close>
  and \<open>Machine.APAT\<close>. The last group stops at the first line terminator.\<close>

definition match_valpat :: "char \<Rightarrow> string \<Rightarrow> (string \<times> string) option" where
  "match_valpat x s =
     (case s of [] \<Rightarrow> None
      | c # r \<Rightarrow> if c \<noteq> x then None
          else (case match_head r of None \<Rightarrow> None
                | Some (p, r') \<Rightarrow>
                    (let ws = takeWhile js_space r'; r2 = dropWhile js_space r'
                     in if ws = [] then None
                        else Some (p, takeWhile (\<lambda>c. \<not> line_terminator c) r2))))"

definition match_DPAT :: "string \<Rightarrow> (string \<times> string) option" where
  "match_DPAT s = match_valpat (CHR ''D'') s"

definition match_APAT :: "string \<Rightarrow> (string \<times> string) option" where
  "match_APAT s = match_valpat (CHR ''A'') s"

text \<open>\<open>Machine.DNULLPAT = /^D\s+([A-Za-z0-9.\/-]+)\s*/\<close>\<close>

definition match_DNULLPAT :: "string \<Rightarrow> string option" where
  "match_DNULLPAT s =
     (case s of [] \<Rightarrow> None
      | c # r \<Rightarrow> if c \<noteq> CHR ''D'' then None
          else (case match_head r of None \<Rightarrow> None | Some (p, r') \<Rightarrow> Some p))"

text \<open>\<open>str.startsWith(c)\<close> for a one-character \<open>c\<close>.\<close>

definition startsWith :: "string \<Rightarrow> char \<Rightarrow> bool" where
  "startsWith s c = (case s of [] \<Rightarrow> False | x # _ \<Rightarrow> x = c)"

text \<open>\<open>str.endsWith(c)\<close> for a one-character \<open>c\<close>.\<close>

definition endsWith :: "string \<Rightarrow> char \<Rightarrow> bool" where
  "endsWith s c = (s \<noteq> [] \<and> last s = c)"

section \<open>The machine\<close>

text \<open>
  A state object of machine.js: \<open>name\<close>, the reference \<open>parent\<close> (absent in the
  root), and the own properties \<open>cc\<close>, \<open>curr\<close> and \<open>data\<close>, each absent until
  the code assigns it. Objects are shared and updated in place (a child holds a reference
  to its parent's object, which later gains children), so they live in a store indexed by
  references; \<open>STATE_TREE\<close> maps a path to the reference of its object.
\<close>

record state =
  name :: string
  parent :: "nat option"
  cc :: "string list option"
  curr :: "nat option"
  data :: "string option"

record machine =
  STATE_TREE :: "(string, nat) fmap"
  heap :: "nat \<Rightarrow> state"
  next_ref :: nat
  live :: bool

text \<open>The failure strings a call returns, with the values interpolated into them.\<close>

datatype reason =
    AddStateNotEditing
  | AddStatesNotEditing
  | AddStateBadPath
  | BadPath string
  | BadName string
  | BadSeparator string
  | ParentHasData
  | ConcurrentParentRejectsVariableChild
  | VariableParentRejectsConcurrentChild
  | AlreadyEditing
  | FinishNotEditing
  | SetCurrentBadPath string
  | NotVariable string
  | NoSuchChild string
  | NotLeaf string
  | VariableLeaf string
  | CSyntax string
  | DSyntax string
  | ASyntax string
  | PNotEditing string
  | PSyntax string
  | BadCommand string string

text \<open>
  What a call comes back with: \<open>null\<close> (success), \<open>undefined\<close>, a failure string,
  or a thrown \<open>TypeError\<close> (a property read from \<open>undefined\<close> or \<open>null\<close>, a call
  of a method that does not exist).
\<close>

datatype outcome = Null | Undefined | Err reason | Thrown

definition blank :: state where
  "blank = \<lparr>name = [], parent = None, cc = None, curr = None, data = None\<rparr>"

text \<open>The constructor (listeners apart: the model has no listener registered).\<close>

definition new_Machine :: machine where
  "new_Machine = \<lparr>STATE_TREE = fmupd [] 0 fmempty, heap = (\<lambda>_. blank), next_ref = 1, live = False\<rparr>"

definition isLive :: "machine \<Rightarrow> bool" where
  "isLive m = live m"

definition isEditing :: "machine \<Rightarrow> bool" where
  "isEditing m = (\<not> live m)"

definition makeEmpty :: "machine \<Rightarrow> machine" where
  "makeEmpty m =
     m\<lparr>STATE_TREE := fmupd [] (next_ref m) fmempty,
       heap := (heap m)(next_ref m := blank),
       next_ref := Suc (next_ref m),
       live := False\<rparr>"

definition startEditing :: "machine \<Rightarrow> outcome \<times> machine" where
  "startEditing m = (if \<not> live m then (Err AlreadyEditing, m) else (Null, m\<lparr>live := False\<rparr>))"

definition finishEditing :: "machine \<Rightarrow> outcome \<times> machine" where
  "finishEditing m = (if live m then (Err FinishNotEditing, m) else (Null, m\<lparr>live := True\<rparr>))"

text \<open>\<open>normalizePath\<close>: the argument \<open>None\<close> is \<open>null\<close>, the result \<open>None\<close> is
  \<open>null\<close> (an illegal string).\<close>

definition normalizePath :: "string option \<Rightarrow> string option" where
  "normalizePath str =
     (case str of None \<Rightarrow> Some []
      | Some s \<Rightarrow> if s = [] then Some []
                  else if match_PATHPAT s then Some (toLowerCase (trim s)) else None)"

definition exists :: "machine \<Rightarrow> string \<Rightarrow> bool" where
  "exists m path =
     (case normalizePath (Some path) of None \<Rightarrow> False
      | Some p \<Rightarrow> fmlookup (STATE_TREE m) p \<noteq> None)"

text \<open>\<open>getState\<close> gives the reference of the object, or \<open>None\<close> for \<open>null\<close>.\<close>

definition getState :: "machine \<Rightarrow> string \<Rightarrow> nat option" where
  "getState m path =
     (case normalizePath (Some path) of None \<Rightarrow> None
      | Some p \<Rightarrow> fmlookup (STATE_TREE m) p)"


section \<open>Adding states\<close>

text \<open>A value that a query returns, or the \<open>TypeError\<close> it throws.\<close>

datatype 'a completion = Returns 'a | Throws

text \<open>
  The second half of \<open>_addSubState\<close>, from \<open>p.hasOwnProperty("data")\<close> on, once
  the parent's object \<open>p\<close> (at the reference \<open>pa\<close>) is found. The assignment
  \<open>p.cc = []\<close> comes before the two composition checks and outlives their failure.
\<close>

definition attach :: "nat \<Rightarrow> string \<Rightarrow> string \<Rightarrow> string \<Rightarrow> machine \<Rightarrow> outcome \<times> machine" where
  "attach pa parentPath separator nm m =
     (let p = heap m pa in
      if data p \<noteq> None then (Err ParentHasData, m)
      else
        let cs = (case cc p of None \<Rightarrow> [] | Some cs \<Rightarrow> cs);
            m1 = m\<lparr>heap := (heap m)(pa := p\<lparr>cc := Some cs\<rparr>)\<rparr>
        in if curr p = None \<and> 0 < length cs \<and> separator \<noteq> ''.''
           then (Err ConcurrentParentRejectsVariableChild, m1)
           else if curr p \<noteq> None \<and> separator \<noteq> ''/''
           then (Err VariableParentRejectsConcurrentChild, m1)
           else
             let p' = p\<lparr>cc := Some (cs @ [nm]),
                        curr := (if separator = ''/'' \<and> curr p = None then Some 0 else curr p)\<rparr>;
                 r = next_ref m;
                 st = \<lparr>name = nm, parent = Some pa, cc = None, curr = None, data = None\<rparr>
             in (Null, m\<lparr>STATE_TREE := fmupd (parentPath @ separator @ nm) r (STATE_TREE m),
                         heap := (heap m)(pa := p', r := st),
                         next_ref := Suc r\<rparr>))"

text \<open>The position \<open>pos\<close> of \<open>_addState\<close>: the larger of the two \<open>lastIndexOf\<close>.\<close>

definition sepPos :: "string \<Rightarrow> int" where
  "sepPos path =
     (let dotPos = lastIndexOf path (CHR ''.''); slashPos = lastIndexOf path (CHR ''/'')
      in if dotPos < slashPos then slashPos else dotPos)"

lemma lastIndexOf_less: "lastIndexOf s c < int (length s)"
  by (simp add: lastIndexOf_def)

lemma sepPos_less: "sepPos path < int (length path)"
  by (simp add: sepPos_def Let_def lastIndexOf_less)

lemma sepPos_nonneg:
  "\<not> (lastIndexOf path (CHR ''.'') < 0 \<and> lastIndexOf path (CHR ''/'') < 0) \<Longrightarrow> 0 \<le> sepPos path"
  by (auto simp: sepPos_def Let_def)

text \<open>\<open>_addState\<close> and \<open>_addSubState\<close>, which call each other. The test
  \<open>! separator.length === 1\<close> of \<open>_addSubState\<close> compares a boolean with \<open>1\<close> and
  never holds, so it has no branch here. When the parent is missing and \<open>_addState\<close>
  reports success for it without having stored it (its normal form exists, the path itself
  does not), \<open>p\<close> stays \<open>undefined\<close> and \<open>p.hasOwnProperty\<close> throws.\<close>

function addState_impl :: "string \<Rightarrow> machine \<Rightarrow> outcome \<times> machine"
  and addSubState_impl :: "string \<Rightarrow> string \<Rightarrow> string \<Rightarrow> machine \<Rightarrow> outcome \<times> machine"
where
  "addState_impl path m =
     (if exists m path then (Null, m)
      else if lastIndexOf path (CHR ''.'') < 0 \<and> lastIndexOf path (CHR ''/'') < 0
      then (Err (BadPath path), m)
      else addSubState_impl (take (nat (sepPos path)) path) [path ! nat (sepPos path)]
             (drop (Suc (nat (sepPos path))) path) m)"
| "addSubState_impl parentPath separator nm m =
     (if \<not> match_name nm then (Err (BadName nm), m)
      else if \<not> match_separator separator then (Err (BadSeparator separator), m)
      else (case fmlookup (STATE_TREE m) parentPath of
              Some pa \<Rightarrow> attach pa parentPath separator nm m
            | None \<Rightarrow>
                (case addState_impl parentPath m of
                   (Null, m') \<Rightarrow>
                     (case fmlookup (STATE_TREE m') parentPath of
                        None \<Rightarrow> (Thrown, m')
                      | Some pa \<Rightarrow> attach pa parentPath separator nm m')
                 | (result, m') \<Rightarrow> (result, m'))))"
  by pat_completeness auto
termination
proof (relation "measure (\<lambda>x. case x of Inl (path, m) \<Rightarrow> 2 * length path + 1
                                   | Inr (pp, sep, nm, m) \<Rightarrow> 2 * length pp + 2)")
  show "wf (measure (\<lambda>x. case x of Inl (path, m) \<Rightarrow> 2 * length path + 1
                                   | Inr (pp, sep, nm, m) \<Rightarrow> 2 * length pp + 2))"
    by simp
next
  fix path :: string and m :: machine
  assume "\<not> (lastIndexOf path (CHR ''.'') < 0 \<and> lastIndexOf path (CHR ''/'') < 0)"
  then have "0 \<le> sepPos path" by (rule sepPos_nonneg)
  moreover have "sepPos path < int (length path)" by (rule sepPos_less)
  ultimately have "nat (sepPos path) < length path" by linarith
  then show "(Inr (take (nat (sepPos path)) path, [path ! nat (sepPos path)],
                   drop (Suc (nat (sepPos path))) path, m), Inl (path, m))
             \<in> measure (\<lambda>x. case x of Inl (path, m) \<Rightarrow> 2 * length path + 1
                                   | Inr (pp, sep, nm, m) \<Rightarrow> 2 * length pp + 2)"
    by simp
next
  fix parentPath separator nm :: string and m :: machine
  show "(Inl (parentPath, m), Inr (parentPath, separator, nm, m))
        \<in> measure (\<lambda>x. case x of Inl (path, m) \<Rightarrow> 2 * length path + 1
                                   | Inr (pp, sep, nm, m) \<Rightarrow> 2 * length pp + 2)"
    by simp
qed

definition addState :: "string \<Rightarrow> machine \<Rightarrow> outcome \<times> machine" where
  "addState path m =
     (if isLive m then (Err AddStateNotEditing, m)
      else (case normalizePath (Some path) of
              None \<Rightarrow> (Err AddStateBadPath, m)
            | Some p \<Rightarrow> addState_impl p m))"

text \<open>
  The \<open>forEach\<close> of \<open>addStates\<close>: the \<open>return result\<close> of its callback ends the
  callback, not \<open>addStates\<close>, so a failure string is dropped and the next path is
  added; only a thrown \<open>TypeError\<close> leaves the loop.
\<close>

fun addStates_forEach :: "string list \<Rightarrow> machine \<Rightarrow> outcome \<times> machine" where
  "addStates_forEach [] m = (Null, m)"
| "addStates_forEach (path # arr) m =
     (case addState_impl path m of
        (Thrown, m') \<Rightarrow> (Thrown, m')
      | (result, m') \<Rightarrow> addStates_forEach arr m')"

definition addStates :: "string list \<Rightarrow> machine \<Rightarrow> outcome \<times> machine" where
  "addStates arr m =
     (if isLive m then (Err AddStatesNotEditing, m)
      else addStates_forEach arr (m\<lparr>live := False\<rparr>))"

section \<open>Queries and the mutation of current child and data\<close>

definition isLeaf :: "machine \<Rightarrow> string \<Rightarrow> bool" where
  "isLeaf m path =
     (if \<not> exists m path then False
      else (case getState m path of None \<Rightarrow> False | Some a \<Rightarrow> cc (heap m a) = None))"

definition isVariableLeaf :: "machine \<Rightarrow> string \<Rightarrow> bool completion" where
  "isVariableLeaf m path =
     (if \<not> exists m path then Returns False
      else if path = [] then Returns False
      else (case getState m path of None \<Rightarrow> Throws
            | Some a \<Rightarrow>
                if cc (heap m a) \<noteq> None then Returns False
                else (case parent (heap m a) of None \<Rightarrow> Throws
                      | Some pa \<Rightarrow> Returns (curr (heap m pa) \<noteq> None))))"

definition isVariableParent :: "machine \<Rightarrow> string \<Rightarrow> bool" where
  "isVariableParent m path =
     (if \<not> exists m path then False
      else (case getState m path of None \<Rightarrow> False
            | Some a \<Rightarrow> cc (heap m a) \<noteq> None \<and> curr (heap m a) \<noteq> None))"

text \<open>\<open>cc.findIndex(elem => elem === name)\<close>: \<open>None\<close> for \<open>-1\<close>.\<close>

definition findIndex :: "string list \<Rightarrow> string \<Rightarrow> nat option" where
  "findIndex cs nm = (if nm \<in> set cs then Some (length (takeWhile (\<lambda>e. e \<noteq> nm) cs)) else None)"

definition setCurrent :: "string \<Rightarrow> string \<Rightarrow> machine \<Rightarrow> outcome \<times> machine" where
  "setCurrent path nm m =
     (if \<not> exists m path then (Err (SetCurrentBadPath path), m)
      else (case getState m path of None \<Rightarrow> (Thrown, m)
            | Some a \<Rightarrow>
                if curr (heap m a) = None then (Err (NotVariable path), m)
                else (case cc (heap m a) of None \<Rightarrow> (Thrown, m)
                      | Some cs \<Rightarrow>
                          (case findIndex cs nm of
                             None \<Rightarrow> (Err (NoSuchChild nm), m)
                           | Some i \<Rightarrow>
                               (Null, m\<lparr>heap := (heap m)(a := (heap m a)\<lparr>curr := Some i\<rparr>)\<rparr>)))))"

definition setData :: "string \<Rightarrow> string \<Rightarrow> machine \<Rightarrow> outcome \<times> machine" where
  "setData path v m =
     (if \<not> isLeaf m path then (Err (NotLeaf path), m)
      else (case isVariableLeaf m path of
              Throws \<Rightarrow> (Thrown, m)
            | Returns True \<Rightarrow> (Err (VariableLeaf path), m)
            | Returns False \<Rightarrow>
                (case getState m path of None \<Rightarrow> (Thrown, m)
                 | Some a \<Rightarrow> (Null, m\<lparr>heap := (heap m)(a := (heap m a)\<lparr>data := Some v\<rparr>)\<rparr>))))"

text \<open>\<open>getData\<close>: \<open>Returns None\<close> is \<open>null\<close>; a stored empty string is falsy and
  comes back as the empty string.\<close>

definition getData :: "machine \<Rightarrow> string \<Rightarrow> string option completion" where
  "getData m path =
     (if \<not> exists m path then Returns None
      else if \<not> isLeaf m path then Returns None
      else (case isVariableLeaf m path of
              Throws \<Rightarrow> Throws
            | Returns True \<Rightarrow> Returns None
            | Returns False \<Rightarrow>
                (case getState m path of None \<Rightarrow> Throws
                 | Some a \<Rightarrow>
                     (case data (heap m a) of None \<Rightarrow> Returns (Some [])
                      | Some d \<Rightarrow> Returns (Some d)))))"

definition isDataLeaf :: "machine \<Rightarrow> string \<Rightarrow> bool completion" where
  "isDataLeaf m path = (case getData m path of Throws \<Rightarrow> Throws | Returns d \<Rightarrow> Returns (d \<noteq> None))"

section \<open>The interpreter\<close>

text \<open>
  \<open>interpretOp\<close>; the argument \<open>None\<close> is \<open>null\<close>. A line that matches
  \<open>Machine.APAT\<close> calls \<open>this.appendData\<close>, which the class does not define: the
  call throws.
\<close>

definition interpretOp :: "string option \<Rightarrow> machine \<Rightarrow> outcome \<times> machine" where
  "interpretOp line m =
     (case line of None \<Rightarrow> (Null, m)
      | Some str0 \<Rightarrow>
          if str0 = [] then (Null, m)
          else
            let str = trim str0 in
            if startsWith str (CHR ''#'') then (Null, m)
            else if startsWith str (CHR ''C'') then
              (case match_CPAT str of
                 Some (path, child) \<Rightarrow>
                   setCurrent (if endsWith path (CHR ''/'') then butlast path else path) child m
               | None \<Rightarrow> (Err (CSyntax str), m))
            else if startsWith str (CHR ''D'') then
              (case match_DPAT str of
                 Some (path, v) \<Rightarrow> setData path v m
               | None \<Rightarrow>
                   (case match_DNULLPAT str of
                      Some path \<Rightarrow> setData path [] m
                    | None \<Rightarrow> (Err (DSyntax str), m)))
            else if startsWith str (CHR ''A'') then
              (case match_APAT str of
                 Some (path, v) \<Rightarrow> (Thrown, m)
               | None \<Rightarrow> (Err (ASyntax str), m))
            else if startsWith str (CHR ''P'') then
              (if \<not> isEditing m then (Err (PNotEditing str), m)
               else (case match_PPAT str of
                       Some path \<Rightarrow> addState path m
                     | None \<Rightarrow> (Err (PSyntax str), m)))
            else (Err (BadCommand str (take 1 str)), m))"

text \<open>\<open>arr.map(op => this.interpretOp(op))\<close>: every line is interpreted, in order, on
  the machine the lines before it left; a thrown \<open>TypeError\<close> ends the \<open>map\<close>.\<close>

fun interpret_map :: "string list \<Rightarrow> machine \<Rightarrow> outcome list completion \<times> machine" where
  "interpret_map [] m = (Returns [], m)"
| "interpret_map (ln # arr) m =
     (case interpretOp (Some ln) m of
        (Thrown, m') \<Rightarrow> (Throws, m')
      | (e, m') \<Rightarrow>
          (case interpret_map arr m' of
             (Throws, m'') \<Rightarrow> (Throws, m'')
           | (Returns errors, m'') \<Rightarrow> (Returns (e # errors), m'')))"

text \<open>The method \<open>interpret\<close> (the word is a keyword of Isabelle, so the constant
  bears the specification's name); \<open>errors.find(e => e !== null)\<close> is
  \<open>undefined\<close> when every entry is \<open>null\<close>.\<close>

definition interpretAll :: "string list \<Rightarrow> machine \<Rightarrow> outcome \<times> machine" where
  "interpretAll arr m =
     (case interpret_map arr m of
        (Throws, m') \<Rightarrow> (Thrown, m')
      | (Returns errors, m') \<Rightarrow>
          (case find (\<lambda>e. e \<noteq> Null) errors of None \<Rightarrow> (Undefined, m') | Some e \<Rightarrow> (e, m')))"


section \<open>Traversal\<close>

text \<open>
  A recursive call of \<open>_appendChildren\<close> is made only for a path \<open>cPath\<close> that
  \<open>getState\<close> finds, that is, whose normal form is a key of \<open>STATE_TREE\<close>. That key
  is longer than \<open>path\<close> without its leading white space and no longer than \<open>cPath\<close>
  without its own, so each call leaves fewer keys above the length of its path: the walk
  ends, since the map is finite.
\<close>

definition keys_above :: "machine \<Rightarrow> string \<Rightarrow> string set" where
  "keys_above m path = {k \<in> fmdom' (STATE_TREE m). length (dropWhile js_space path) < length k}"

lemma length_trim_le: "length (trim s) \<le> length (dropWhile js_space s)"
proof -
  have "length (dropWhile js_space (rev (dropWhile js_space s))) \<le> length (rev (dropWhile js_space s))"
    by (rule length_dropWhile_le)
  then show ?thesis by (simp add: trim_def)
qed

lemma dropWhile_sep:
  "\<not> js_space c \<Longrightarrow> dropWhile js_space (p @ c # n) = dropWhile js_space p @ c # n"
  by (induction p) simp_all

lemma length_trim_sep:
  assumes "\<not> js_space c"
  shows "length (dropWhile js_space p) < length (trim (p @ c # n))"
proof -
  have "dropWhile js_space (rev n @ c # rev (dropWhile js_space p))
          = dropWhile js_space (rev n) @ c # rev (dropWhile js_space p)"
    using assms by (rule dropWhile_sep)
  then have "trim (p @ c # n) = dropWhile js_space p @ c # rev (dropWhile js_space (rev n))"
    using assms by (simp add: trim_def dropWhile_sep)
  then show ?thesis by simp
qed

lemma getState_key:
  assumes "getState m (p @ c # n) = Some a"
  shows "toLowerCase (trim (p @ c # n)) \<in> fmdom' (STATE_TREE m)"
  using assms
  by (auto simp: getState_def normalizePath_def fmlookup_dom'_iff split: if_splits)

lemma keys_above_less:
  assumes "\<not> js_space c" and "getState m (p @ c # n) = Some a"
  shows "card (keys_above m (p @ c # n)) < card (keys_above m p)"
proof (rule psubset_card_mono)
  show "finite (keys_above m p)" by (simp add: keys_above_def)
next
  let ?k = "toLowerCase (trim (p @ c # n))"
  have len: "length ?k = length (trim (p @ c # n))" by (simp add: toLowerCase_def)
  have "?k \<in> keys_above m p"
    using getState_key [OF assms(2)] length_trim_sep [OF assms(1), of p n]
    by (simp add: keys_above_def len)
  moreover have "?k \<notin> keys_above m (p @ c # n)"
    using length_trim_le [of "p @ c # n"] by (simp add: keys_above_def len)
  moreover have "keys_above m (p @ c # n) \<subseteq> keys_above m p"
    using assms(1) by (auto simp: keys_above_def dropWhile_sep)
  ultimately show "keys_above m (p @ c # n) \<subset> keys_above m p" by blast
qed

lemma not_space_slash: "\<not> js_space (CHR ''/'')"
  by (simp add: js_space_def)

lemma not_space_dot: "\<not> js_space (CHR ''.'')"
  by (simp add: js_space_def)

text \<open>\<open>_appendChildren(path, state, arr)\<close>; the result is what the call pushes on
  \<open>arr\<close>, and \<open>a\<close> is the reference of \<open>state\<close>.\<close>

function appendChildren_impl :: "machine \<Rightarrow> string \<Rightarrow> nat \<Rightarrow> string list" where
  "appendChildren_impl m path a =
     (case cc (heap m a) of None \<Rightarrow> []
      | Some cs \<Rightarrow>
          if curr (heap m a) \<noteq> None
          then concat (map (\<lambda>nm. (path @ CHR ''/'' # nm) #
                  (case getState m (path @ CHR ''/'' # nm) of None \<Rightarrow> []
                   | Some child \<Rightarrow> appendChildren_impl m (path @ CHR ''/'' # nm) child)) cs)
          else concat (map (\<lambda>nm. (path @ CHR ''.'' # nm) #
                  (case getState m (path @ CHR ''.'' # nm) of None \<Rightarrow> []
                   | Some child \<Rightarrow> appendChildren_impl m (path @ CHR ''.'' # nm) child)) cs))"
  by pat_completeness auto
termination
proof (relation "measure (\<lambda>(m, path, a). card (keys_above m path))", goal_cases)
  case 1
  show ?case by simp
next
  case (2 m path a cs nm child)
  then show ?case using keys_above_less [OF not_space_slash] keys_above_less [OF not_space_dot] by simp
next
  case (3 m path a cs nm child)
  then show ?case using keys_above_less [OF not_space_slash] keys_above_less [OF not_space_dot] by simp
qed

text \<open>\<open>_appendCurrentChildren(path, state, arr)\<close>. At a variable state the name
  \<open>state.cc[state.curr]\<close> is \<open>undefined\<close> when the index is out of range, and then,
  or when it is the empty string, nothing is pushed.\<close>

function appendCurrentChildren_impl :: "machine \<Rightarrow> string \<Rightarrow> nat \<Rightarrow> string list" where
  "appendCurrentChildren_impl m path a =
     (case cc (heap m a) of None \<Rightarrow> []
      | Some cs \<Rightarrow>
          (case curr (heap m a) of
             Some i \<Rightarrow>
               if i < length cs \<and> cs ! i \<noteq> []
               then (path @ CHR ''/'' # cs ! i) #
                      (case getState m (path @ CHR ''/'' # cs ! i) of None \<Rightarrow> []
                       | Some child \<Rightarrow> appendCurrentChildren_impl m (path @ CHR ''/'' # cs ! i) child)
               else []
           | None \<Rightarrow>
               concat (map (\<lambda>nm. (path @ CHR ''.'' # nm) #
                  (case getState m (path @ CHR ''.'' # nm) of None \<Rightarrow> []
                   | Some child \<Rightarrow> appendCurrentChildren_impl m (path @ CHR ''.'' # nm) child)) cs)))"
  by pat_completeness auto
termination
proof (relation "measure (\<lambda>(m, path, a). card (keys_above m path))", goal_cases)
  case 1
  show ?case by simp
next
  case (2 m path a cs i child)
  then show ?case using keys_above_less [OF not_space_slash] keys_above_less [OF not_space_dot] by simp
next
  case (3 m path a cs nm child)
  then show ?case using keys_above_less [OF not_space_slash] keys_above_less [OF not_space_dot] by simp
qed

text \<open>\<open>getAllPaths\<close> and \<open>getCurrentPaths\<close>: were the root missing, reading
  \<open>state.cc\<close> from \<open>null\<close> would throw.\<close>

definition getAllPaths :: "machine \<Rightarrow> string list completion" where
  "getAllPaths m =
     (case getState m [] of None \<Rightarrow> Throws
      | Some rootState \<Rightarrow> Returns ([] # appendChildren_impl m [] rootState))"

definition getCurrentPaths :: "machine \<Rightarrow> string list completion" where
  "getCurrentPaths m =
     (case getState m [] of None \<Rightarrow> Throws
      | Some rootState \<Rightarrow> Returns ([] # appendCurrentChildren_impl m [] rootState))"

section \<open>Serialization\<close>

text \<open>\<open>_snipChild\<close>: \<open>None\<close> is \<open>null\<close>.\<close>

definition snipChild_impl :: "string \<Rightarrow> (string \<times> string) option" where
  "snipChild_impl path =
     (let pos = lastIndexOf path (CHR ''/'') in
      if pos = - 1 then None
      else let childName = drop (nat (pos + 1)) path in
           if CHR ''.'' \<in> set childName then None
           else Some (take (nat pos) path, childName))"

text \<open>The lines that the callback of \<open>getSerialization\<close> pushes for one path.\<close>

definition serialize_path :: "machine \<Rightarrow> string \<Rightarrow> string list completion" where
  "serialize_path m path =
     (case getState m path of None \<Rightarrow> Throws
      | Some a \<Rightarrow>
          (case parent (heap m a) of
             None \<Rightarrow> Returns [''P '' @ path]
           | Some pa \<Rightarrow>
               (case curr (heap m pa) of
                  Some i \<Rightarrow>
                    if i \<noteq> 0 then
                      (case cc (heap m pa) of None \<Rightarrow> Throws
                       | Some cs \<Rightarrow>
                           if i < length cs \<and> cs ! i = name (heap m a)
                           then (case snipChild_impl path of None \<Rightarrow> Throws
                                 | Some (p, c) \<Rightarrow>
                                     Returns [''P '' @ path, ''C '' @ p @ '' '' @ c])
                           else Returns [''P '' @ path])
                    else Returns [''P '' @ path]
                | None \<Rightarrow>
                    (case data (heap m a) of
                       None \<Rightarrow> Returns [''P '' @ path]
                     | Some d \<Rightarrow>
                         if d \<noteq> [] then Returns [''P '' @ path, ''D '' @ path @ '' '' @ d]
                         else Returns [''P '' @ path]))))"

fun serialize_forEach :: "machine \<Rightarrow> string list \<Rightarrow> string list completion" where
  "serialize_forEach m [] = Returns []"
| "serialize_forEach m (path # arr) =
     (case serialize_path m path of Throws \<Rightarrow> Throws
      | Returns ls \<Rightarrow>
          (case serialize_forEach m arr of Throws \<Rightarrow> Throws
           | Returns serial \<Rightarrow> Returns (ls @ serial)))"

definition getSerialization :: "machine \<Rightarrow> string list completion" where
  "getSerialization m =
     (case getAllPaths m of Throws \<Rightarrow> Throws
      | Returns arr \<Rightarrow> serialize_forEach m arr)"



section \<open>Reachable machines\<close>

text \<open>The public calls that change a machine (the registration of listeners leaves the
  tree alone), and the machines that a sequence of them makes from a new machine.\<close>

datatype call =
    AddState string
  | AddStates "string list"
  | MakeEmpty
  | StartEditing
  | FinishEditing
  | SetCurrent string string
  | SetData string string
  | InterpretOp "string option"
  | Interpret "string list"

fun perform :: "call \<Rightarrow> machine \<Rightarrow> machine" where
  "perform (AddState path) m = snd (addState path m)"
| "perform (AddStates arr) m = snd (addStates arr m)"
| "perform MakeEmpty m = makeEmpty m"
| "perform StartEditing m = snd (startEditing m)"
| "perform FinishEditing m = snd (finishEditing m)"
| "perform (SetCurrent path nm) m = snd (setCurrent path nm m)"
| "perform (SetData path v) m = snd (setData path v m)"
| "perform (InterpretOp line) m = snd (interpretOp line m)"
| "perform (Interpret arr) m = snd (interpretAll arr m)"

inductive reachable :: "machine \<Rightarrow> bool" where
  fresh: "reachable new_Machine"
| step: "reachable m \<Longrightarrow> reachable (perform c m)"

text \<open>
  Every call changes the machine through five updates only: the second half of
  \<open>_addSubState\<close>, \<open>setCurrent\<close>, \<open>setData\<close>, \<open>makeEmpty\<close> and the
  assignments of \<open>_live\<close>. A property that these five keep is kept by every call.
\<close>

lemma addState_impl_preserves:
  assumes att: "\<And>m pa pp sep nm. I m \<Longrightarrow> fmlookup (STATE_TREE m) pp = Some pa
                  \<Longrightarrow> match_name nm \<Longrightarrow> match_separator sep
                  \<Longrightarrow> I (snd (attach pa pp sep nm m))"
  shows "I m \<Longrightarrow> I (snd (addState_impl path m))"
    and "I m \<Longrightarrow> I (snd (addSubState_impl pp sep nm m))"
proof (induction path m and pp sep nm m rule: addState_impl_addSubState_impl.induct)
  case (1 path m)
  show ?case
    using 1 by (subst addState_impl.simps) auto
next
  case (2 pp sep nm m)
  show ?case
  proof (cases "\<not> match_name nm \<or> \<not> match_separator sep")
    case True
    then show ?thesis using 2(2) by (subst addSubState_impl.simps) auto
  next
    case ok: False
    show ?thesis
    proof (cases "fmlookup (STATE_TREE m) pp")
      case (Some pa)
      then show ?thesis using ok 2(2) att by (subst addSubState_impl.simps) auto
    next
      case None
      obtain r m' where r: "addState_impl pp m = (r, m')" by (cases "addState_impl pp m")
      have I': "I m'" using 2(1) [OF _ _ None] ok 2(2) r by simp
      show ?thesis
        using ok None r I' att
        by (subst addSubState_impl.simps) (auto split: outcome.splits option.splits)
    qed
  qed
qed

lemma addStates_forEach_preserves:
  assumes att: "\<And>m pa pp sep nm. I m \<Longrightarrow> fmlookup (STATE_TREE m) pp = Some pa
                  \<Longrightarrow> match_name nm \<Longrightarrow> match_separator sep
                  \<Longrightarrow> I (snd (attach pa pp sep nm m))"
  shows "I m \<Longrightarrow> I (snd (addStates_forEach arr m))"
proof (induction arr arbitrary: m)
  case Nil
  then show ?case by simp
next
  case (Cons path arr)
  obtain r m' where r: "addState_impl path m = (r, m')" by (cases "addState_impl path m")
  have "I m'" using addState_impl_preserves(1) [of I m path, OF att] Cons.prems r by simp
  then show ?case using Cons.IH [of m'] r by (auto split: outcome.splits)
qed

lemma interpretOp_preserves:
  assumes att: "\<And>m pa pp sep nm. I m \<Longrightarrow> fmlookup (STATE_TREE m) pp = Some pa
                  \<Longrightarrow> match_name nm \<Longrightarrow> match_separator sep
                  \<Longrightarrow> I (snd (attach pa pp sep nm m))"
    and cur: "\<And>m path nm. I m \<Longrightarrow> I (snd (setCurrent path nm m))"
    and dat: "\<And>m path v. I m \<Longrightarrow> I (snd (setData path v m))"
  shows "I m \<Longrightarrow> I (snd (interpretOp line m))"
  using addState_impl_preserves(1) [of I, OF att] cur dat
  by (auto simp: interpretOp_def addState_def Let_def split: option.splits)

lemma interpret_map_preserves:
  assumes op: "\<And>m line. I m \<Longrightarrow> I (snd (interpretOp line m))"
  shows "I m \<Longrightarrow> I (snd (interpret_map arr m))"
proof (induction arr arbitrary: m)
  case Nil
  then show ?case by simp
next
  case (Cons ln arr)
  obtain r m' where r: "interpretOp (Some ln) m = (r, m')" by (cases "interpretOp (Some ln) m")
  have I': "I m'" using op [OF Cons.prems, of "Some ln"] r by simp
  obtain es m'' where es: "interpret_map arr m' = (es, m'')" by (cases "interpret_map arr m'")
  have "I m''" using Cons.IH [OF I'] es by simp
  then show ?case using r es I' by (auto split: outcome.splits completion.splits)
qed

lemma perform_preserves:
  assumes att: "\<And>m pa pp sep nm. I m \<Longrightarrow> fmlookup (STATE_TREE m) pp = Some pa
                  \<Longrightarrow> match_name nm \<Longrightarrow> match_separator sep
                  \<Longrightarrow> I (snd (attach pa pp sep nm m))"
    and cur: "\<And>m path nm. I m \<Longrightarrow> I (snd (setCurrent path nm m))"
    and dat: "\<And>m path v. I m \<Longrightarrow> I (snd (setData path v m))"
    and emp: "\<And>m. I m \<Longrightarrow> I (makeEmpty m)"
    and liv: "\<And>m b. I m \<Longrightarrow> I (m\<lparr>live := b\<rparr>)"
  shows "I m \<Longrightarrow> I (perform c m)"
proof (cases c)
  case (AddState path)
  assume "I m"
  then show ?thesis
    using AddState addState_impl_preserves(1) [of I, OF att]
    by (auto simp: addState_def split: option.splits)
next
  case (AddStates arr)
  assume "I m"
  then show ?thesis
    using AddStates addStates_forEach_preserves [of I "m\<lparr>live := False\<rparr>" arr, OF att] liv
    by (auto simp: addStates_def)
next
  case MakeEmpty
  assume "I m"
  then show ?thesis using MakeEmpty emp by simp
next
  case StartEditing
  assume "I m"
  then show ?thesis using StartEditing liv by (simp add: startEditing_def)
next
  case FinishEditing
  assume "I m"
  then show ?thesis using FinishEditing liv by (simp add: finishEditing_def)
next
  case (SetCurrent path nm)
  assume "I m"
  then show ?thesis using SetCurrent cur by simp
next
  case (SetData path v)
  assume "I m"
  then show ?thesis using SetData dat by simp
next
  case (InterpretOp line)
  assume "I m"
  then show ?thesis using InterpretOp interpretOp_preserves [of I, OF att cur dat] by simp
next
  case (Interpret arr)
  assume i: "I m"
  have "I (snd (interpret_map arr m))"
    using interpret_map_preserves [of I m arr] interpretOp_preserves [of I, OF att cur dat] i
    by blast
  then show ?thesis
    using Interpret by (auto simp: interpretAll_def split: prod.splits completion.splits option.splits)
qed

lemma reachable_invariant:
  assumes "reachable m" and "I new_Machine"
    and att: "\<And>m pa pp sep nm. I m \<Longrightarrow> fmlookup (STATE_TREE m) pp = Some pa
                  \<Longrightarrow> match_name nm \<Longrightarrow> match_separator sep
                  \<Longrightarrow> I (snd (attach pa pp sep nm m))"
    and cur: "\<And>m path nm. I m \<Longrightarrow> I (snd (setCurrent path nm m))"
    and dat: "\<And>m path v. I m \<Longrightarrow> I (snd (setData path v m))"
    and emp: "\<And>m. I m \<Longrightarrow> I (makeEmpty m)"
    and liv: "\<And>m b. I m \<Longrightarrow> I (m\<lparr>live := b\<rparr>)"
  shows "I m"
  using assms(1)
proof (induction rule: reachable.induct)
  case fresh
  show ?case by (rule assms(2))
next
  case (step m c)
  then show ?case using perform_preserves [of I m c, OF att cur dat emp liv] by blast
qed


section \<open>Blank lines and comments\<close>

lemma trim_all_space:
  assumes "\<forall>c\<in>set s. js_space c"
  shows "trim s = []"
proof -
  have "dropWhile js_space s = []" using assms by (induction s) simp_all
  then show ?thesis unfolding trim_def by (simp only: rev.simps dropWhile.simps)
qed

text \<open>
  C10. A non-empty line made of white space only is not a blank line for
  \<open>interpretOp\<close>: it is trimmed to the empty string, which starts with no command
  letter, and the call returns the bad-command failure and leaves the machine as it was.
  The empty string, \<open>null\<close>, and a line whose trimmed form starts with \<open>#\<close> return
  \<open>null\<close> and leave the machine as it was.
\<close>

theorem interpretOp_blank_lines:
  "(s \<noteq> [] \<and> (\<forall>c\<in>set s. js_space c) \<longrightarrow> interpretOp (Some s) m = (Err (BadCommand [] []), m))
   \<and> interpretOp (Some []) m = (Null, m)
   \<and> interpretOp None m = (Null, m)
   \<and> (startsWith (trim t) (CHR ''#'') \<longrightarrow> interpretOp (Some t) m = (Null, m))"
  by (auto simp: interpretOp_def trim_all_space startsWith_def Let_def)

lemma space_space: "js_space (CHR '' '')"
  by (simp add: js_space_def)

theorem interpretOp_blank_lines_witness:
  "''  '' \<noteq> [] \<and> list_all js_space ''  ''
   \<and> startsWith (trim '' # note'') (CHR ''#'')
   \<and> interpretOp (Some ''  '') new_Machine = (Err (BadCommand [] []), new_Machine)
   \<and> interpretOp (Some '' # note'') new_Machine = (Null, new_Machine)"
proof -
  have h1: "''  '' \<noteq> [] \<and> (\<forall>c\<in>set ''  ''. js_space c)"
    by (simp add: space_space)
  have h2: "startsWith (trim '' # note'') (CHR ''#'')"
    by (simp add: trim_def startsWith_def js_space_def)
  show ?thesis
    using interpretOp_blank_lines [of "''  ''" new_Machine "'' # note''"] h1 h2
    by (simp add: list_all_iff)
qed

section \<open>Normal form of a path\<close>

text \<open>
  C5. The claim that every string with a character outside the path class is rejected
  fails on the code: the pattern is searched for anywhere in the string, and what is
  accepted is trimmed, so a path with white space around it is accepted.
\<close>

theorem normalizePath_space_counterexample:
  "CHR '' '' \<in> set '' .a '' \<and> \<not> path_char (CHR '' '')
   \<and> normalizePath (Some '' .a '') = Some ''.a''"
  by code_simp

lemma set_trim_subset: "set (trim s) \<subseteq> set s"
proof -
  have "set (trim s) \<subseteq> set (dropWhile js_space s)"
    using set_dropWhileD [of _ js_space "rev (dropWhile js_space s)"] by (auto simp: trim_def)
  then show ?thesis using set_dropWhileD [of _ js_space s] by blast
qed

text \<open>
  C5, amended. \<open>normalizePath\<close> gives the root path for \<open>null\<close> and for the empty
  string, \<open>null\<close> for a non-empty string with no character of the path class, and for a
  string that is a non-empty run of path characters with white space around it, that run
  in lower case.
\<close>

theorem normalizePath_cases:
  "normalizePath None = Some []
   \<and> normalizePath (Some []) = Some []
   \<and> (s \<noteq> [] \<and> (\<forall>c\<in>set s. \<not> path_char c) \<longrightarrow> normalizePath (Some s) = None)
   \<and> (trim t \<noteq> [] \<and> (\<forall>c\<in>set (trim t). path_char c)
        \<longrightarrow> normalizePath (Some t) = Some (toLowerCase (trim t)))"
proof -
  have "normalizePath (Some t) = Some (toLowerCase (trim t))"
    if ne: "trim t \<noteq> []" and cl: "\<forall>c\<in>set (trim t). path_char c"
  proof -
    obtain c where c: "c \<in> set (trim t)" using ne by (cases "trim t") auto
    then have "c \<in> set t" "path_char c" using set_trim_subset cl by auto
    then have "match_PATHPAT t" "t \<noteq> []" by (auto simp: match_PATHPAT_def)
    then show ?thesis by (simp add: normalizePath_def)
  qed
  then show ?thesis by (auto simp: normalizePath_def match_PATHPAT_def)
qed

theorem normalizePath_cases_witness:
  "''!?'' \<noteq> [] \<and> list_all (\<lambda>c. \<not> path_char c) ''!?''
   \<and> trim '' .A/b '' = ''.A/b'' \<and> list_all path_char ''.A/b''
   \<and> normalizePath (Some ''!?'') = None
   \<and> normalizePath (Some '' .A/b '') = Some ''.a/b''"
proof -
  have h1: "''!?'' \<noteq> [] \<and> (\<forall>c\<in>set ''!?''. \<not> path_char c)"
    by code_simp
  have t: "trim '' .A/b '' = ''.A/b''"
    by code_simp
  have h2: "\<forall>c\<in>set ''.A/b''. path_char c"
    by code_simp
  have l: "toLowerCase ''.A/b'' = ''.a/b''"
    by code_simp
  show ?thesis
    using normalizePath_cases [of "''!?''" "'' .A/b ''"] h1 h2 t l
    by (simp add: list_all_iff)
qed

section \<open>Adding many states\<close>

text \<open>
  C3. \<open>addStates\<close> does not return the failure of an add: on a new machine the path
  \<open>foo\<close> has no separator and \<open>_addState\<close> fails on it, yet \<open>addStates\<close> of the
  list holding that path returns \<open>null\<close>, and goes on to add the path after it.
\<close>

theorem addStates_drops_failure:
  "fst (addState_impl ''foo'' new_Machine) = Err (BadPath ''foo'')
   \<and> fst (addStates [''foo'', ''.a''] new_Machine) = Null
   \<and> exists (snd (addStates [''foo'', ''.a''] new_Machine)) ''.a''"
  by code_simp

section \<open>The editing gate\<close>

text \<open>
  C4. \<open>makeEmpty\<close> has no editing gate: on a live machine it succeeds, empties the
  tree and puts the machine back into editing mode.
\<close>

definition live_machine_a :: machine where
  "live_machine_a = snd (finishEditing (snd (addState ''.a'' new_Machine)))"

theorem makeEmpty_live_counterexample:
  "live live_machine_a \<and> exists live_machine_a ''.a''
   \<and> \<not> live (makeEmpty live_machine_a) \<and> \<not> exists (makeEmpty live_machine_a) ''.a''"
  by code_simp

text \<open>
  C4, amended. On a live machine \<open>addState\<close> and \<open>addStates\<close> fail with their
  not-editing reason and leave the machine as it was. \<open>makeEmpty\<close> works in either
  mode: it leaves the root as the only node and the machine in editing mode.
\<close>

theorem structural_mutation_gate:
  "(live m \<longrightarrow> addState path m = (Err AddStateNotEditing, m)
              \<and> addStates arr m = (Err AddStatesNotEditing, m))
   \<and> \<not> live (makeEmpty m)
   \<and> fmdom' (STATE_TREE (makeEmpty m)) = {[]}
   \<and> getAllPaths (makeEmpty m) = Returns [[]]"
  by (simp add: addState_def addStates_def isLive_def makeEmpty_def getAllPaths_def
      getState_def normalizePath_def blank_def)

theorem structural_mutation_gate_witness:
  "live live_machine_a
   \<and> addState ''.b'' live_machine_a = (Err AddStateNotEditing, live_machine_a)
   \<and> addStates [''.b''] live_machine_a = (Err AddStatesNotEditing, live_machine_a)
   \<and> \<not> live (makeEmpty live_machine_a)"
proof -
  have h: "live live_machine_a" by code_simp
  show ?thesis
    using structural_mutation_gate [of live_machine_a "''.b''" "[''.b'']"] h by simp
qed

section \<open>Interpreting a list of lines\<close>

text \<open>
  C2. The method does not stop at the first failing line: the \<open>map\<close> runs
  \<open>interpretOp\<close> on every line before the first failure is looked for. Here the first
  line fails and the second is applied all the same.
\<close>

theorem interpretAll_goes_on_counterexample:
  "fst (interpretOp (Some ''X'') new_Machine) = Err (BadCommand ''X'' ''X'')
   \<and> fst (interpretAll [''X'', ''P .a''] new_Machine) = Err (BadCommand ''X'' ''X'')
   \<and> \<not> exists new_Machine ''.a''
   \<and> exists (snd (interpretAll [''X'', ''P .a''] new_Machine)) ''.a''"
  by code_simp

text \<open>Every line applied in order, each to the machine the line before it left,
  whatever that line returned: the results and the last machine.\<close>

fun run_lines :: "string list \<Rightarrow> machine \<Rightarrow> outcome list \<times> machine" where
  "run_lines [] m = ([], m)"
| "run_lines (ln # arr) m =
     (fst (interpretOp (Some ln) m) # fst (run_lines arr (snd (interpretOp (Some ln) m))),
      snd (run_lines arr (snd (interpretOp (Some ln) m))))"

lemma interpret_map_run_lines:
  "Thrown \<notin> set (fst (run_lines arr m))
   \<Longrightarrow> interpret_map arr m = (Returns (fst (run_lines arr m)), snd (run_lines arr m))"
proof (induction arr arbitrary: m)
  case Nil
  then show ?case by simp
next
  case (Cons ln arr)
  obtain e m' where e: "interpretOp (Some ln) m = (e, m')" by (cases "interpretOp (Some ln) m")
  have "e \<noteq> Thrown" and "Thrown \<notin> set (fst (run_lines arr m'))"
    using Cons.prems e by auto
  then show ?case using Cons.IH [of m'] e by (cases e) simp_all
qed

lemma attach_defined: "fst (attach pa pp sep nm m) \<noteq> Undefined"
  by (simp add: attach_def Let_def)

lemma addState_impl_defined:
  "fst (addState_impl path m) \<noteq> Undefined"
  "fst (addSubState_impl pp sep nm m) \<noteq> Undefined"
proof (induction path m and pp sep nm m rule: addState_impl_addSubState_impl.induct)
  case (1 path m)
  then show ?case by (subst addState_impl.simps) auto
next
  case (2 pp sep nm m)
  show ?case
  proof (cases "\<not> match_name nm \<or> \<not> match_separator sep")
    case True
    then show ?thesis by (subst addSubState_impl.simps) auto
  next
    case ok: False
    show ?thesis
    proof (cases "fmlookup (STATE_TREE m) pp")
      case (Some pa)
      then show ?thesis using ok attach_defined by (subst addSubState_impl.simps) auto
    next
      case None
      obtain r m' where r: "addState_impl pp m = (r, m')" by (cases "addState_impl pp m")
      have "r \<noteq> Undefined" using 2 [OF _ _ None] ok r by simp
      then show ?thesis
        using ok None r attach_defined
        by (subst addSubState_impl.simps) (auto split: outcome.splits option.splits)
    qed
  qed
qed

lemma addState_defined: "fst (addState path m) \<noteq> Undefined"
  using addState_impl_defined(1) by (simp add: addState_def split: option.splits)

lemma setCurrent_defined: "fst (setCurrent path nm m) \<noteq> Undefined"
  by (simp add: setCurrent_def split: option.splits)

lemma setData_defined: "fst (setData path v m) \<noteq> Undefined"
  by (simp add: setData_def split: option.splits completion.splits bool.splits)

lemma interpretOp_defined: "fst (interpretOp line m) \<noteq> Undefined"
  using addState_defined setCurrent_defined setData_defined
  by (simp add: interpretOp_def Let_def split: option.splits prod.splits)

lemma run_lines_defined: "Undefined \<notin> set (fst (run_lines arr m))"
  by (induction arr arbitrary: m) (simp_all add: interpretOp_defined [symmetric])

text \<open>
  C2, amended. When no line throws, the method applies every line in order, each to the
  machine left by the lines before it, also after a line has failed; it returns the first
  result that is not \<open>null\<close>, and \<open>undefined\<close> exactly when every line returns
  \<open>null\<close>.
\<close>

theorem interpretAll_every_line:
  assumes "Thrown \<notin> set (fst (run_lines arr m))"
  shows "snd (interpretAll arr m) = snd (run_lines arr m)
         \<and> fst (interpretAll arr m) =
             (case find (\<lambda>e. e \<noteq> Null) (fst (run_lines arr m)) of None \<Rightarrow> Undefined | Some e \<Rightarrow> e)
         \<and> (fst (interpretAll arr m) = Undefined \<longleftrightarrow> list_all (\<lambda>e. e = Null) (fst (run_lines arr m)))"
proof -
  let ?es = "fst (run_lines arr m)"
  have im: "interpret_map arr m = (Returns ?es, snd (run_lines arr m))"
    using assms by (rule interpret_map_run_lines)
  have r: "fst (interpretAll arr m) = (case find (\<lambda>e. e \<noteq> Null) ?es of None \<Rightarrow> Undefined | Some e \<Rightarrow> e)"
    and s: "snd (interpretAll arr m) = snd (run_lines arr m)"
    using im by (auto simp: interpretAll_def split: option.splits)
  have "(case find (\<lambda>e. e \<noteq> Null) ?es of None \<Rightarrow> Undefined | Some e \<Rightarrow> e) = Undefined
        \<longleftrightarrow> list_all (\<lambda>e. e = Null) ?es"
  proof (cases "find (\<lambda>e. e \<noteq> Null) ?es")
    case None
    then have "\<forall>e\<in>set ?es. e = Null" by (auto simp: find_None_iff)
    then show ?thesis unfolding None by (simp add: list_all_iff)
  next
    case (Some e)
    then have "e \<in> set ?es" "e \<noteq> Null" by (auto simp: find_Some_iff)
    moreover from this have "e \<noteq> Undefined" using run_lines_defined [of arr m] by auto
    ultimately show ?thesis using Some by (auto simp: list_all_iff)
  qed
  then show ?thesis using r s by simp
qed

theorem interpretAll_every_line_witness:
  "Thrown \<notin> set (fst (run_lines [''X'', ''P .a''] new_Machine))
   \<and> fst (run_lines [''X'', ''P .a''] new_Machine) = [Err (BadCommand ''X'' ''X''), Null]
   \<and> snd (interpretAll [''X'', ''P .a''] new_Machine) = snd (run_lines [''X'', ''P .a''] new_Machine)
   \<and> fst (interpretAll [''X'', ''P .a''] new_Machine) = Err (BadCommand ''X'' ''X'')"
proof -
  have r: "fst (run_lines [''X'', ''P .a''] new_Machine) = [Err (BadCommand ''X'' ''X''), Null]"
    by code_simp
  then have h: "Thrown \<notin> set (fst (run_lines [''X'', ''P .a''] new_Machine))" by simp
  show ?thesis
    using interpretAll_every_line [OF h] r h by simp
qed

section \<open>The index of the current child\<close>

text \<open>Every state object that has a \<open>curr\<close> has a \<open>cc\<close>, and \<open>curr\<close> is an index
  of it (so \<open>cc\<close> is not empty).\<close>

definition curr_valid :: "machine \<Rightarrow> bool" where
  "curr_valid m =
     (\<forall>a i. curr (heap m a) = Some i \<longrightarrow> (\<exists>cs. cc (heap m a) = Some cs \<and> i < length cs))"

lemma findIndex_less: "findIndex cs nm = Some i \<Longrightarrow> i < length cs"
proof -
  have "nm \<in> set cs \<Longrightarrow> length (takeWhile (\<lambda>e. e \<noteq> nm) cs) < length cs"
    by (induction cs) auto
  then show "findIndex cs nm = Some i \<Longrightarrow> i < length cs"
    by (auto simp: findIndex_def split: if_splits)
qed

lemma curr_valid_new: "curr_valid new_Machine"
  by (simp add: curr_valid_def new_Machine_def blank_def)

lemma curr_valid_attach:
  assumes "curr_valid m"
  shows "curr_valid (snd (attach pa pp sep nm m))"
proof -
  have p: "\<And>i. curr (heap m pa) = Some i \<Longrightarrow> \<exists>cs. cc (heap m pa) = Some cs \<and> i < length cs"
    using assms unfolding curr_valid_def by blast
  have o: "\<And>a i. curr (heap m a) = Some i \<Longrightarrow> \<exists>cs. cc (heap m a) = Some cs \<and> i < length cs"
    using assms unfolding curr_valid_def by blast
  show ?thesis
    unfolding curr_valid_def attach_def Let_def
    using p o by (fastforce split: option.splits if_splits simp: less_Suc_eq)
qed

lemma curr_valid_setCurrent: "curr_valid m \<Longrightarrow> curr_valid (snd (setCurrent path nm m))"
  unfolding curr_valid_def setCurrent_def
  by (auto split: option.splits if_splits dest: findIndex_less)

lemma curr_valid_setData: "curr_valid m \<Longrightarrow> curr_valid (snd (setData path v m))"
  unfolding curr_valid_def setData_def
  by (auto split: option.splits if_splits completion.splits bool.splits)

lemma curr_valid_makeEmpty: "curr_valid m \<Longrightarrow> curr_valid (makeEmpty m)"
  by (simp add: curr_valid_def makeEmpty_def blank_def)

lemma curr_valid_live: "curr_valid m \<Longrightarrow> curr_valid (m\<lparr>live := b\<rparr>)"
  by (simp add: curr_valid_def)

lemma curr_valid_perform: "curr_valid m \<Longrightarrow> curr_valid (perform c m)"
  by (rule perform_preserves [of curr_valid])
     (simp_all add: curr_valid_attach curr_valid_setCurrent curr_valid_setData
        curr_valid_makeEmpty curr_valid_live)

lemma curr_valid_reachable: "reachable m \<Longrightarrow> curr_valid m"
  by (induction rule: reachable.induct) (simp_all add: curr_valid_new curr_valid_perform)

text \<open>
  C9. \<open>curr_valid\<close> holds of a new machine and every public call keeps it (\<open>perform\<close>
  ranges over \<open>addState\<close>, \<open>addStates\<close>, \<open>makeEmpty\<close>, \<open>startEditing\<close>,
  \<open>finishEditing\<close>, \<open>setCurrent\<close>, \<open>setData\<close>, \<open>interpretOp\<close> and
  \<open>interpret\<close>); so in every reachable machine a node of the tree that has a \<open>curr\<close>
  has a non-empty list of children, of which \<open>curr\<close> is an index.
\<close>

theorem curr_index_valid:
  "curr_valid new_Machine
   \<and> (curr_valid m \<longrightarrow> curr_valid (perform c m))
   \<and> (reachable m' \<and> fmlookup (STATE_TREE m') path = Some a \<and> curr (heap m' a) = Some i
        \<longrightarrow> (\<exists>cs. cc (heap m' a) = Some cs \<and> cs \<noteq> [] \<and> i < length cs))"
proof -
  have "\<exists>cs. cc (heap m' a) = Some cs \<and> cs \<noteq> [] \<and> i < length cs"
    if r: "reachable m'" and c: "curr (heap m' a) = Some i"
  proof -
    have "curr_valid m'" using r by (rule curr_valid_reachable)
    then obtain cs where "cc (heap m' a) = Some cs" "i < length cs"
      using c unfolding curr_valid_def by blast
    then show ?thesis by auto
  qed
  then show ?thesis using curr_valid_new curr_valid_perform by blast
qed

definition machine_xy :: machine where
  "machine_xy = perform (SetCurrent [] ''y'') (perform (AddStates [''/x'', ''/y'']) new_Machine)"

theorem curr_index_valid_witness:
  "curr_valid new_Machine
   \<and> curr_valid (perform (AddState ''/x'') new_Machine)
   \<and> reachable machine_xy
   \<and> fmlookup (STATE_TREE machine_xy) [] = Some 0
   \<and> curr (heap machine_xy 0) = Some 1
   \<and> cc (heap machine_xy 0) = Some [''x'', ''y'']"
proof -
  have r: "reachable machine_xy"
    unfolding machine_xy_def by (intro reachable.intros)
  have l: "fmlookup (STATE_TREE machine_xy) [] = Some 0" by code_simp
  have c: "curr (heap machine_xy 0) = Some 1" by code_simp
  have k: "cc (heap machine_xy 0) = Some [''x'', ''y'']" by code_simp
  show ?thesis
    using curr_index_valid [of new_Machine "AddState ''/x''" machine_xy "[]" 0 1] r l c k
    by simp
qed

section \<open>Well-formed machines\<close>

text \<open>
  What every reachable machine satisfies: the references in use are below \<open>next_ref\<close>;
  the object a \<open>parent\<close> refers to has children; an object with \<open>data\<close> has no
  children and its parent, if it has one, has no \<open>curr\<close>; the root is in the tree and
  is the only node without a parent; no short name is empty.
\<close>

definition refs_bounded :: "machine \<Rightarrow> bool" where
  "refs_bounded m =
     ((\<forall>k a. fmlookup (STATE_TREE m) k = Some a \<longrightarrow> a < next_ref m)
      \<and> (\<forall>a pa. parent (heap m a) = Some pa \<longrightarrow> pa < next_ref m))"

definition parents_have_children :: "machine \<Rightarrow> bool" where
  "parents_have_children m =
     (\<forall>a pa. parent (heap m a) = Some pa \<longrightarrow> (\<exists>cs. cc (heap m pa) = Some cs \<and> cs \<noteq> []))"

definition data_on_leaves :: "machine \<Rightarrow> bool" where
  "data_on_leaves m =
     (\<forall>a. data (heap m a) \<noteq> None \<longrightarrow>
        cc (heap m a) = None \<and> (\<forall>pa. parent (heap m a) = Some pa \<longrightarrow> curr (heap m pa) = None))"

definition root_only_orphan :: "machine \<Rightarrow> bool" where
  "root_only_orphan m =
     ((\<exists>r. fmlookup (STATE_TREE m) [] = Some r \<and> parent (heap m r) = None)
      \<and> (\<forall>k a. k \<noteq> [] \<and> fmlookup (STATE_TREE m) k = Some a \<longrightarrow> parent (heap m a) \<noteq> None))"

definition names_nonempty :: "machine \<Rightarrow> bool" where
  "names_nonempty m = (\<forall>a cs. cc (heap m a) = Some cs \<longrightarrow> [] \<notin> set cs)"

definition wellformed :: "machine \<Rightarrow> bool" where
  "wellformed m =
     (refs_bounded m \<and> parents_have_children m \<and> data_on_leaves m \<and> root_only_orphan m
      \<and> names_nonempty m)"

lemma wellformed_new: "wellformed new_Machine"
  by (simp add: wellformed_def refs_bounded_def parents_have_children_def data_on_leaves_def
      root_only_orphan_def names_nonempty_def new_Machine_def blank_def)

lemma wellformed_live: "wellformed m \<Longrightarrow> wellformed (m\<lparr>live := b\<rparr>)"
  by (simp add: wellformed_def refs_bounded_def parents_have_children_def data_on_leaves_def
      root_only_orphan_def names_nonempty_def)

lemma wellformed_makeEmpty:
  assumes "wellformed m"
  shows "wellformed (makeEmpty m)"
proof -
  have rb: "refs_bounded m" and pc: "parents_have_children m" and dl: "data_on_leaves m"
    and nn: "names_nonempty m"
    using assms by (simp_all add: wellformed_def)
  have 1: "refs_bounded (makeEmpty m)"
    using rb by (auto simp: refs_bounded_def makeEmpty_def blank_def less_Suc_eq)
  have 2: "parents_have_children (makeEmpty m)"
    using pc rb by (fastforce simp: parents_have_children_def refs_bounded_def makeEmpty_def blank_def)
  have 3: "data_on_leaves (makeEmpty m)"
    using dl by (auto simp: data_on_leaves_def makeEmpty_def blank_def)
  have 4: "root_only_orphan (makeEmpty m)"
    by (simp add: root_only_orphan_def makeEmpty_def blank_def)
  have 5: "names_nonempty (makeEmpty m)"
    using nn by (auto simp: names_nonempty_def makeEmpty_def blank_def)
  show ?thesis using 1 2 3 4 5 by (simp add: wellformed_def)
qed

lemma wellformed_setCurrent:
  assumes "wellformed m"
  shows "wellformed (snd (setCurrent path nm m))"
proof (cases "\<exists>a i. snd (setCurrent path nm m) = m\<lparr>heap := (heap m)(a := (heap m a)\<lparr>curr := Some i\<rparr>)\<rparr>
                       \<and> curr (heap m a) \<noteq> None")
  case False
  then have "snd (setCurrent path nm m) = m"
    by (auto simp: setCurrent_def split: option.splits if_splits)
  then show ?thesis using assms by simp
next
  case True
  then obtain a i where m': "snd (setCurrent path nm m) = m\<lparr>heap := (heap m)(a := (heap m a)\<lparr>curr := Some i\<rparr>)\<rparr>"
    and c: "curr (heap m a) \<noteq> None" by blast
  have rb: "refs_bounded m" and pc: "parents_have_children m" and dl: "data_on_leaves m"
    and ro: "root_only_orphan m" and nn: "names_nonempty m"
    using assms by (simp_all add: wellformed_def)
  have 1: "refs_bounded (snd (setCurrent path nm m))"
    using rb unfolding m' by (auto simp: refs_bounded_def)
  have 2: "parents_have_children (snd (setCurrent path nm m))"
    using pc unfolding m' by (auto simp: parents_have_children_def)
  have 3: "data_on_leaves (snd (setCurrent path nm m))"
    using dl c unfolding m' by (fastforce simp: data_on_leaves_def)
  have 4: "root_only_orphan (snd (setCurrent path nm m))"
    using ro unfolding m' by (auto simp: root_only_orphan_def)
  have 5: "names_nonempty (snd (setCurrent path nm m))"
    using nn unfolding m' by (auto simp: names_nonempty_def)
  show ?thesis using 1 2 3 4 5 by (simp add: wellformed_def)
qed

text \<open>What \<open>setData\<close> needs to go through: a leaf that is the root or whose parent has
  no \<open>curr\<close>.\<close>

lemma setData_Null:
  assumes "setData path v m = (Null, m')"
  obtains a where "getState m path = Some a" and "cc (heap m a) = None"
    and "path = [] \<or> (\<exists>pa. parent (heap m a) = Some pa \<and> curr (heap m pa) = None)"
    and "m' = m\<lparr>heap := (heap m)(a := (heap m a)\<lparr>data := Some v\<rparr>)\<rparr>"
  using assms
  by (auto simp: setData_def isLeaf_def isVariableLeaf_def
      split: if_splits option.splits completion.splits bool.splits)

lemma setData_not_Null: "fst (setData path v m) \<noteq> Null \<Longrightarrow> snd (setData path v m) = m"
  by (auto simp: setData_def split: if_splits option.splits completion.splits bool.splits)

lemma wellformed_setData:
  assumes "wellformed m"
  shows "wellformed (snd (setData path v m))"
proof (cases "fst (setData path v m) = Null")
  case False
  then show ?thesis using assms setData_not_Null by simp
next
  case True
  then have "setData path v m = (Null, snd (setData path v m))" by (simp add: prod_eq_iff)
  then obtain a where g: "getState m path = Some a" and leaf: "cc (heap m a) = None"
    and par: "path = [] \<or> (\<exists>pa. parent (heap m a) = Some pa \<and> curr (heap m pa) = None)"
    and m': "snd (setData path v m) = m\<lparr>heap := (heap m)(a := (heap m a)\<lparr>data := Some v\<rparr>)\<rparr>"
    by (rule setData_Null)
  have rb: "refs_bounded m" and pc: "parents_have_children m" and dl: "data_on_leaves m"
    and ro: "root_only_orphan m" and nn: "names_nonempty m"
    using assms by (simp_all add: wellformed_def)
  have par': "\<forall>pa. parent (heap m a) = Some pa \<longrightarrow> curr (heap m pa) = None"
  proof (cases "path = []")
    case True
    then have "fmlookup (STATE_TREE m) [] = Some a"
      using g by (simp add: getState_def normalizePath_def)
    then show ?thesis using ro by (auto simp: root_only_orphan_def)
  next
    case False
    then show ?thesis using par by auto
  qed
  have 1: "refs_bounded (snd (setData path v m))"
    using rb unfolding m' by (auto simp: refs_bounded_def)
  have 2: "parents_have_children (snd (setData path v m))"
    using pc unfolding m' by (auto simp: parents_have_children_def)
  have 3: "data_on_leaves (snd (setData path v m))"
    using dl leaf par' unfolding m' by (auto simp: data_on_leaves_def)
  have 4: "root_only_orphan (snd (setData path v m))"
    using ro unfolding m' by (auto simp: root_only_orphan_def)
  have 5: "names_nonempty (snd (setData path v m))"
    using nn unfolding m' by (auto simp: names_nonempty_def)
  show ?thesis using 1 2 3 4 5 by (simp add: wellformed_def)
qed

text \<open>The three ways the second half of \<open>_addSubState\<close> ends.\<close>

definition children_of :: "machine \<Rightarrow> nat \<Rightarrow> string list" where
  "children_of m pa = (case cc (heap m pa) of None \<Rightarrow> [] | Some cs \<Rightarrow> cs)"

definition attached :: "nat \<Rightarrow> string \<Rightarrow> string \<Rightarrow> string \<Rightarrow> machine \<Rightarrow> machine" where
  "attached pa pp sep nm m =
     m\<lparr>STATE_TREE := fmupd (pp @ sep @ nm) (next_ref m) (STATE_TREE m),
       heap := (heap m)
         (pa := (heap m pa)\<lparr>cc := Some (children_of m pa @ [nm]),
                            curr := (if sep = ''/'' \<and> curr (heap m pa) = None then Some 0
                                     else curr (heap m pa))\<rparr>,
          next_ref m := \<lparr>name = nm, parent = Some pa, cc = None, curr = None, data = None\<rparr>),
       next_ref := Suc (next_ref m)\<rparr>"

lemma attach_cases:
  obtains
    (has_data) "data (heap m pa) \<noteq> None" "attach pa pp sep nm m = (Err ParentHasData, m)"
  | (concurrent) "data (heap m pa) = None" "curr (heap m pa) = None" "children_of m pa \<noteq> []"
      "sep \<noteq> ''.''"
      "attach pa pp sep nm m = (Err ConcurrentParentRejectsVariableChild,
         m\<lparr>heap := (heap m)(pa := (heap m pa)\<lparr>cc := Some (children_of m pa)\<rparr>)\<rparr>)"
  | (variable) "data (heap m pa) = None" "curr (heap m pa) \<noteq> None" "sep \<noteq> ''/''"
      "attach pa pp sep nm m = (Err VariableParentRejectsConcurrentChild,
         m\<lparr>heap := (heap m)(pa := (heap m pa)\<lparr>cc := Some (children_of m pa)\<rparr>)\<rparr>)"
  | (added) "data (heap m pa) = None"
      "curr (heap m pa) = None \<longrightarrow> children_of m pa = [] \<or> sep = ''.''"
      "curr (heap m pa) \<noteq> None \<longrightarrow> sep = ''/''"
      "attach pa pp sep nm m = (Null, attached pa pp sep nm m)"
proof (cases "data (heap m pa) \<noteq> None")
  case True
  then show ?thesis using has_data by (simp add: attach_def Let_def)
next
  case nd: False
  show ?thesis
  proof (cases "curr (heap m pa) = None \<and> children_of m pa \<noteq> [] \<and> sep \<noteq> ''.''")
    case True
    then show ?thesis using nd concurrent by (simp add: attach_def Let_def children_of_def)
  next
    case nc: False
    show ?thesis
    proof (cases "curr (heap m pa) \<noteq> None \<and> sep \<noteq> ''/''")
      case True
      then show ?thesis
        using nd nc variable by (auto simp: attach_def Let_def children_of_def)
    next
      case False
      have "attach pa pp sep nm m = (Null, attached pa pp sep nm m)"
        using nd nc False by (auto simp: attach_def Let_def children_of_def attached_def)
      then show ?thesis using nd nc False added by blast
    qed
  qed
qed

lemma wellformed_cc_set:
  assumes wf: "wellformed m" and nd: "data (heap m pa) = None"
  shows "wellformed (m\<lparr>heap := (heap m)(pa := (heap m pa)\<lparr>cc := Some (children_of m pa)\<rparr>)\<rparr>)"
    (is "wellformed ?m'")
proof (cases "cc (heap m pa)")
  case (Some cs)
  then have "(heap m)(pa := (heap m pa)\<lparr>cc := Some (children_of m pa)\<rparr>) = heap m"
    by (auto simp: children_of_def)
  then show ?thesis using wf by simp
next
  case None
  have rb: "refs_bounded m" and pc: "parents_have_children m" and dl: "data_on_leaves m"
    and ro: "root_only_orphan m" and nn: "names_nonempty m"
    using wf by (simp_all add: wellformed_def)
  have np: "\<And>a. parent (heap m a) \<noteq> Some pa"
    using pc None unfolding parents_have_children_def by fastforce
  have 1: "refs_bounded ?m'" using rb by (auto simp: refs_bounded_def)
  have 2: "parents_have_children ?m'"
    using pc np by (auto simp: parents_have_children_def)
  have 3: "data_on_leaves ?m'"
    using dl nd by (auto simp: data_on_leaves_def)
  have 4: "root_only_orphan ?m'" using ro by (auto simp: root_only_orphan_def)
  have 5: "names_nonempty ?m'"
    using nn None by (auto simp: names_nonempty_def children_of_def)
  show ?thesis using 1 2 3 4 5 by (simp add: wellformed_def)
qed

lemma wellformed_attached:
  assumes wf: "wellformed m" and look: "fmlookup (STATE_TREE m) pp = Some pa"
    and nm: "nm \<noteq> []" and nd: "data (heap m pa) = None"
    and c1: "curr (heap m pa) = None \<longrightarrow> children_of m pa = [] \<or> sep = ''.''"
  shows "wellformed (attached pa pp sep nm m)"
proof -
  have rb: "refs_bounded m" and pc: "parents_have_children m" and dl: "data_on_leaves m"
    and ro: "root_only_orphan m" and nn: "names_nonempty m"
    using wf by (simp_all add: wellformed_def)
  have pa: "pa < next_ref m" using rb look by (auto simp: refs_bounded_def)
  have fresh_tree: "\<And>k a. fmlookup (STATE_TREE m) k = Some a \<Longrightarrow> a \<noteq> next_ref m"
    using rb by (fastforce simp: refs_bounded_def)
  have fresh_par: "\<And>a. parent (heap m a) \<noteq> Some (next_ref m)"
    using rb by (fastforce simp: refs_bounded_def)
  have 1: "refs_bounded (attached pa pp sep nm m)"
    using rb pa by (auto simp: refs_bounded_def attached_def less_Suc_eq)
  have 2: "parents_have_children (attached pa pp sep nm m)"
    using pc pa fresh_par by (auto simp: parents_have_children_def attached_def)
  have kid: "\<And>a. parent (heap m a) = Some pa \<Longrightarrow> children_of m pa \<noteq> []"
    using pc unfolding parents_have_children_def children_of_def by fastforce
  have 3: "data_on_leaves (attached pa pp sep nm m)"
    unfolding data_on_leaves_def
  proof (intro allI impI)
    fix a
    assume d: "data (heap (attached pa pp sep nm m) a) \<noteq> None"
    then have a1: "a \<noteq> next_ref m" and a2: "a \<noteq> pa"
      using nd pa by (auto simp: attached_def split: if_splits)
    then have same: "heap (attached pa pp sep nm m) a = heap m a" by (simp add: attached_def)
    have old: "cc (heap m a) = None"
      "\<And>q. parent (heap m a) = Some q \<Longrightarrow> curr (heap m q) = None"
      using dl d same by (auto simp: data_on_leaves_def)
    have "curr (heap (attached pa pp sep nm m) q) = None" if q: "parent (heap m a) = Some q" for q
    proof (cases "q = pa")
      case True
      then have "curr (heap m pa) = None" "children_of m pa \<noteq> []"
        using old(2) q kid by auto
      then have "sep = ''.''" using c1 by simp
      then show ?thesis using True pa old(2) q by (simp add: attached_def)
    next
      case False
      then show ?thesis using old(2) q by (simp add: attached_def)
    qed
    then show "cc (heap (attached pa pp sep nm m) a) = None
               \<and> (\<forall>q. parent (heap (attached pa pp sep nm m) a) = Some q
                      \<longrightarrow> curr (heap (attached pa pp sep nm m) q) = None)"
      using same old(1) by simp
  qed
  have 4: "root_only_orphan (attached pa pp sep nm m)"
  proof -
    obtain r where r: "fmlookup (STATE_TREE m) [] = Some r" "parent (heap m r) = None"
      using ro by (auto simp: root_only_orphan_def)
    have "r \<noteq> next_ref m" using r(1) fresh_tree by blast
    then have "fmlookup (STATE_TREE (attached pa pp sep nm m)) [] = Some r
               \<and> parent (heap (attached pa pp sep nm m) r) = None"
      using r nm by (auto simp: attached_def)
    moreover have "parent (heap (attached pa pp sep nm m) a) \<noteq> None"
      if "k \<noteq> []" and "fmlookup (STATE_TREE (attached pa pp sep nm m)) k = Some a" for k a
    proof (cases "k = pp @ sep @ nm")
      case True
      then show ?thesis using that by (simp add: attached_def)
    next
      case False
      then have l: "fmlookup (STATE_TREE m) k = Some a" using that by (simp add: attached_def)
      then have "a \<noteq> next_ref m" "parent (heap m a) \<noteq> None"
        using fresh_tree ro that(1) by (auto simp: root_only_orphan_def)
      then show ?thesis by (auto simp: attached_def)
    qed
    ultimately show ?thesis unfolding root_only_orphan_def by blast
  qed
  have 5: "names_nonempty (attached pa pp sep nm m)"
    using nn nm by (auto simp: names_nonempty_def attached_def children_of_def split: option.splits if_splits)
  show ?thesis using 1 2 3 4 5 by (simp add: wellformed_def)
qed

lemma match_name_nonempty: "match_name nm \<Longrightarrow> nm \<noteq> []"
  by (auto simp: match_name_def)

lemma wellformed_attach:
  assumes wf: "wellformed m" and look: "fmlookup (STATE_TREE m) pp = Some pa"
    and nm: "match_name nm"
  shows "wellformed (snd (attach pa pp sep nm m))"
proof (cases rule: attach_cases [where m = m and pa = pa and pp = pp and sep = sep and nm = nm])
  case has_data
  then show ?thesis using wf by simp
next
  case concurrent
  then show ?thesis using wellformed_cc_set [OF wf, of pa] by simp
next
  case variable
  then show ?thesis using wellformed_cc_set [OF wf, of pa] by simp
next
  case added
  then show ?thesis
    using wellformed_attached [OF wf look match_name_nonempty [OF nm]] by simp
qed

lemma wellformed_perform: "wellformed m \<Longrightarrow> wellformed (perform c m)"
  by (rule perform_preserves [of wellformed])
     (simp_all add: wellformed_attach wellformed_setCurrent wellformed_setData
        wellformed_makeEmpty wellformed_live)

lemma wellformed_reachable: "reachable m \<Longrightarrow> wellformed m"
  by (induction rule: reachable.induct) (simp_all add: wellformed_new wellformed_perform)

section \<open>Where data lives\<close>

text \<open>
  C7. The root can hold data: while it has no children it is a leaf, and
  \<open>isVariableLeaf\<close> answers \<open>false\<close> for the empty path before it looks at a
  parent, so \<open>setData\<close> on the root of a new machine succeeds.
\<close>

definition machine_root_data :: machine where
  "machine_root_data = perform (SetData [] ''x'') new_Machine"

theorem root_data_counterexample:
  "reachable machine_root_data
   \<and> fst (setData [] ''x'' new_Machine) = Null
   \<and> fmlookup (STATE_TREE machine_root_data) [] = Some 0
   \<and> data (heap machine_root_data 0) = Some ''x''
   \<and> parent (heap machine_root_data 0) = None
   \<and> getData machine_root_data [] = Returns (Some ''x'')"
proof -
  have "reachable machine_root_data"
    unfolding machine_root_data_def by (intro reachable.intros)
  moreover have "fst (setData [] ''x'' new_Machine) = Null" by code_simp
  moreover have "fmlookup (STATE_TREE machine_root_data) [] = Some 0" by code_simp
  moreover have "data (heap machine_root_data 0) = Some ''x''" by code_simp
  moreover have "parent (heap machine_root_data 0) = None" by code_simp
  moreover have "getData machine_root_data [] = Returns (Some ''x'')" by code_simp
  ultimately show ?thesis by blast
qed

text \<open>
  C7, amended. In every reachable machine a node that holds data is a leaf, and it is
  the root or the child of a concurrent parent (a parent with children and without
  \<open>curr\<close>). \<open>setData\<close> fails, and leaves the machine as it was, on every path that is
  not a leaf and on every variable leaf. On the root, while it has no children,
  \<open>setData\<close> succeeds in every machine, and stores the value in the root's object.
\<close>

theorem data_only_on_leaves:
  "(reachable m \<and> fmlookup (STATE_TREE m) k = Some a \<and> data (heap m a) = Some d
      \<longrightarrow> cc (heap m a) = None
          \<and> (k = [] \<or> (\<exists>pa cs. parent (heap m a) = Some pa \<and> cc (heap m pa) = Some cs
                            \<and> cs \<noteq> [] \<and> curr (heap m pa) = None)))
   \<and> (\<not> isLeaf m1 p1 \<longrightarrow> setData p1 v1 m1 = (Err (NotLeaf p1), m1))
   \<and> (isLeaf m2 p2 \<and> isVariableLeaf m2 p2 = Returns True
        \<longrightarrow> setData p2 v2 m2 = (Err (VariableLeaf p2), m2))
   \<and> (fmlookup (STATE_TREE m3) [] = Some r3 \<and> cc (heap m3 r3) = None
        \<longrightarrow> setData [] v3 m3
              = (Null, m3\<lparr>heap := (heap m3)(r3 := (heap m3 r3)\<lparr>data := Some v3\<rparr>)\<rparr>)
            \<and> getData (snd (setData [] v3 m3)) [] = Returns (Some v3))"
proof -
  have root: "setData [] v3 m3
                = (Null, m3\<lparr>heap := (heap m3)(r3 := (heap m3 r3)\<lparr>data := Some v3\<rparr>)\<rparr>)
              \<and> getData (snd (setData [] v3 m3)) [] = Returns (Some v3)"
    if "fmlookup (STATE_TREE m3) [] = Some r3" and "cc (heap m3 r3) = None"
    using that
    by (simp add: setData_def getData_def isLeaf_def isVariableLeaf_def exists_def getState_def
        normalizePath_def)
  have "cc (heap m a) = None
        \<and> (k = [] \<or> (\<exists>pa cs. parent (heap m a) = Some pa \<and> cc (heap m pa) = Some cs
                          \<and> cs \<noteq> [] \<and> curr (heap m pa) = None))"
    if r: "reachable m" and l: "fmlookup (STATE_TREE m) k = Some a" and d: "data (heap m a) = Some d"
  proof -
    have wf: "wellformed m" using r by (rule wellformed_reachable)
    then have dl: "data_on_leaves m" and pc: "parents_have_children m" and ro: "root_only_orphan m"
      by (simp_all add: wellformed_def)
    have leaf: "cc (heap m a) = None"
      and par: "\<And>pa. parent (heap m a) = Some pa \<Longrightarrow> curr (heap m pa) = None"
      using dl d by (auto simp: data_on_leaves_def)
    show ?thesis
    proof (cases "k = []")
      case True
      then show ?thesis using leaf by simp
    next
      case False
      then obtain pa where pa: "parent (heap m a) = Some pa"
        using ro l by (auto simp: root_only_orphan_def)
      then obtain cs where "cc (heap m pa) = Some cs" "cs \<noteq> []"
        using pc unfolding parents_have_children_def by blast
      then show ?thesis using leaf pa par by auto
    qed
  qed
  then show ?thesis using root by (auto simp: setData_def)
qed

definition machine_az :: machine where
  "machine_az = perform (SetData ''.z'' ''zebra'') (perform (AddStates [''.a/x'', ''.z'']) new_Machine)"

theorem data_only_on_leaves_witness:
  "reachable machine_az
   \<and> fmlookup (STATE_TREE machine_az) ''.z'' = Some 3
   \<and> data (heap machine_az 3) = Some ''zebra''
   \<and> cc (heap machine_az 3) = None
   \<and> parent (heap machine_az 3) = Some 0
   \<and> cc (heap machine_az 0) = Some [''a'', ''z'']
   \<and> curr (heap machine_az 0) = None
   \<and> \<not> isLeaf machine_az ''.a''
   \<and> setData ''.a'' ''v'' machine_az = (Err (NotLeaf ''.a''), machine_az)
   \<and> isLeaf machine_az ''.a/x''
   \<and> isVariableLeaf machine_az ''.a/x'' = Returns True
   \<and> setData ''.a/x'' ''v'' machine_az = (Err (VariableLeaf ''.a/x''), machine_az)
   \<and> fmlookup (STATE_TREE new_Machine) [] = Some 0
   \<and> cc (heap new_Machine 0) = None
   \<and> setData [] ''x'' new_Machine
        = (Null, new_Machine\<lparr>heap := (heap new_Machine)
                                 (0 := (heap new_Machine 0)\<lparr>data := Some ''x''\<rparr>)\<rparr>)
   \<and> getData (snd (setData [] ''x'' new_Machine)) [] = Returns (Some ''x'')"
proof -
  have r0: "fmlookup (STATE_TREE new_Machine) [] = Some 0" by code_simp
  have c0: "cc (heap new_Machine 0) = None" by code_simp
  have r: "reachable machine_az"
    unfolding machine_az_def by (intro reachable.intros)
  have l: "fmlookup (STATE_TREE machine_az) ''.z'' = Some 3" by code_simp
  have d: "data (heap machine_az 3) = Some ''zebra''" by code_simp
  have p: "parent (heap machine_az 3) = Some 0" by code_simp
  have c: "cc (heap machine_az 0) = Some [''a'', ''z'']" by code_simp
  have n: "\<not> isLeaf machine_az ''.a''" by code_simp
  have i: "isLeaf machine_az ''.a/x''" by code_simp
  have v: "isVariableLeaf machine_az ''.a/x'' = Returns True" by code_simp
  show ?thesis
    using data_only_on_leaves [of machine_az "''.z''" 3 "''zebra''" machine_az "''.a''" "''v''"
        machine_az "''.a/x''" "''v''" new_Machine 0 "''x''"] r l d p c n i v r0 c0
    by auto
qed

section \<open>One kind of composition for each parent\<close>

lemma lastIndexOf_sep:
  assumes "c \<notin> set nm"
  shows "lastIndexOf (pp @ c # nm) c = int (length pp)"
proof -
  have "takeWhile (\<lambda>x. x \<noteq> c) (rev nm @ c # rev pp) = takeWhile (\<lambda>x. x \<noteq> c) (rev nm)"
    by (rule takeWhile_tail) simp
  also have "\<dots> = rev nm" using assms by auto
  finally show ?thesis by (simp add: lastIndexOf_def)
qed

lemma lastIndexOf_other:
  assumes "d \<noteq> c" and "d \<notin> set nm"
  shows "lastIndexOf (pp @ c # nm) d < int (length pp)"
proof (cases "d \<in> set pp")
  case False
  then show ?thesis using assms by (simp add: lastIndexOf_def)
next
  case True
  have "takeWhile (\<lambda>x. x \<noteq> d) (rev nm @ c # rev pp)
          = rev nm @ takeWhile (\<lambda>x. x \<noteq> d) (c # rev pp)"
    using assms(2) by (intro takeWhile_append2) auto
  then have "length (takeWhile (\<lambda>x. x \<noteq> d) (rev (pp @ c # nm))) \<ge> length nm + 1"
    using assms(1) by simp
  then show ?thesis using True by (simp add: lastIndexOf_def)
qed

lemma sepPos_child:
  assumes "c = CHR ''.'' \<or> c = CHR ''/''" and "CHR ''.'' \<notin> set nm" and "CHR ''/'' \<notin> set nm"
  shows "sepPos (pp @ c # nm) = int (length pp)"
    and "\<not> (lastIndexOf (pp @ c # nm) (CHR ''.'') < 0 \<and> lastIndexOf (pp @ c # nm) (CHR ''/'') < 0)"
proof -
  show "sepPos (pp @ c # nm) = int (length pp)"
  proof (cases "c = CHR ''.''")
    case True
    then show ?thesis
      using lastIndexOf_sep [of c nm pp] lastIndexOf_other [of "CHR ''/''" c nm pp] assms
      by (simp add: sepPos_def Let_def)
  next
    case False
    then have c: "c = CHR ''/''" using assms(1) by simp
    then show ?thesis
      using lastIndexOf_sep [of c nm pp] lastIndexOf_other [of "CHR ''.''" c nm pp] assms
      by (simp add: sepPos_def Let_def)
  qed
  show "\<not> (lastIndexOf (pp @ c # nm) (CHR ''.'') < 0 \<and> lastIndexOf (pp @ c # nm) (CHR ''/'') < 0)"
    using lastIndexOf_sep [of c nm pp] assms by auto
qed

text \<open>\<open>_addState\<close> on a path that does not exist yet and ends in a separator and a name
  without separators goes to \<open>_addSubState\<close> with the three pieces.\<close>

lemma addState_impl_child:
  assumes "\<not> exists m (pp @ c # nm)" and "c = CHR ''.'' \<or> c = CHR ''/''"
    and "CHR ''.'' \<notin> set nm" and "CHR ''/'' \<notin> set nm"
  shows "addState_impl (pp @ c # nm) m = addSubState_impl pp [c] nm m"
proof -
  let ?p = "pp @ c # nm"
  have sp: "sepPos ?p = int (length pp)"
    and nb: "\<not> (lastIndexOf ?p (CHR ''.'') < 0 \<and> lastIndexOf ?p (CHR ''/'') < 0)"
    using sepPos_child [OF assms(2-4), of pp] by blast+
  have "addState_impl ?p m =
          addSubState_impl (take (nat (sepPos ?p)) ?p) [?p ! nat (sepPos ?p)]
            (drop (Suc (nat (sepPos ?p))) ?p) m"
    using assms(1) nb
    by (subst addState_impl.simps) (auto simp del: addState_impl.simps addSubState_impl.simps)
  then show ?thesis
    by (simp add: sp del: addState_impl.simps addSubState_impl.simps)
qed

lemma wellformed_parent_no_data:
  assumes "wellformed m" and "children_of m pa \<noteq> []"
  shows "data (heap m pa) = None"
proof (rule ccontr)
  assume "data (heap m pa) \<noteq> None"
  then have "cc (heap m pa) = None"
    using assms(1) by (auto simp: wellformed_def data_on_leaves_def)
  then show False using assms(2) by (simp add: children_of_def)
qed

lemma cc_set_same:
  "children_of m pa \<noteq> [] \<Longrightarrow> m\<lparr>heap := (heap m)(pa := (heap m pa)\<lparr>cc := Some (children_of m pa)\<rparr>)\<rparr> = m"
proof -
  assume "children_of m pa \<noteq> []"
  then have "cc (heap m pa) = Some (children_of m pa)"
    by (auto simp: children_of_def split: option.splits)
  then have "(heap m pa)\<lparr>cc := Some (children_of m pa)\<rparr> = heap m pa" by simp
  then show ?thesis by simp
qed

lemma reject_variable_child:
  assumes wf: "wellformed m" and look: "fmlookup (STATE_TREE m) pp = Some pa"
    and kids: "children_of m pa \<noteq> []" and cur: "curr (heap m pa) = None" and nm: "match_name nm"
  shows "addSubState_impl pp ''/'' nm m = (Err ConcurrentParentRejectsVariableChild, m)"
proof -
  have nd: "data (heap m pa) = None" using wf kids by (rule wellformed_parent_no_data)
  have "attach pa pp ''/'' nm m = (Err ConcurrentParentRejectsVariableChild, m)"
    by (cases rule: attach_cases [where m = m and pa = pa and pp = pp and sep = "''/''" and nm = nm])
       (use nd cur kids cc_set_same [OF kids] in auto)
  then show ?thesis
    using look nm by (subst addSubState_impl.simps) (simp add: match_separator_def)
qed

lemma reject_concurrent_child:
  assumes wf: "wellformed m" and look: "fmlookup (STATE_TREE m) pp = Some pa"
    and kids: "children_of m pa \<noteq> []" and cur: "curr (heap m pa) \<noteq> None" and nm: "match_name nm"
  shows "addSubState_impl pp ''.'' nm m = (Err VariableParentRejectsConcurrentChild, m)"
proof -
  have nd: "data (heap m pa) = None" using wf kids by (rule wellformed_parent_no_data)
  have "attach pa pp ''.'' nm m = (Err VariableParentRejectsConcurrentChild, m)"
    by (cases rule: attach_cases [where m = m and pa = pa and pp = pp and sep = "''.''" and nm = nm])
       (use nd cur kids cc_set_same [OF kids] in auto)
  then show ?thesis
    using look nm by (subst addSubState_impl.simps) (simp add: match_separator_def)
qed

lemma addState_child:
  assumes "\<not> live m" and "normalizePath (Some (pp @ c # nm)) = Some (pp @ c # nm)"
    and "\<not> exists m (pp @ c # nm)" and "c = CHR ''.'' \<or> c = CHR ''/''"
    and "CHR ''.'' \<notin> set nm" and "CHR ''/'' \<notin> set nm"
  shows "addState (pp @ c # nm) m = addSubState_impl pp [c] nm m"
  using assms addState_impl_child [OF assms(3-6)] by (simp add: addState_def isLive_def)

lemma first_child_kind:
  assumes r: "reachable m" and look: "fmlookup (STATE_TREE m) pp = Some pa"
    and none: "children_of m pa = []" and add: "addSubState_impl pp sep nm m = (Null, m')"
  shows "fmlookup (STATE_TREE m') pp = Some pa \<and> children_of m' pa = [nm]
         \<and> (curr (heap m' pa) = None \<longleftrightarrow> sep \<noteq> ''/'')"
proof -
  have wf: "wellformed m" using r by (rule wellformed_reachable)
  have cv: "curr_valid m" using r by (rule curr_valid_reachable)
  have nm: "match_name nm" and att: "attach pa pp sep nm m = (Null, m')"
    using add look by (subst (asm) addSubState_impl.simps, auto split: if_splits)+
  have m': "m' = attached pa pp sep nm m"
    by (cases rule: attach_cases [where m = m and pa = pa and pp = pp and sep = sep and nm = nm])
       (use att in auto)
  have cur: "curr (heap m pa) = None"
  proof (rule ccontr)
    assume "curr (heap m pa) \<noteq> None"
    then obtain i cs where "cc (heap m pa) = Some cs" "i < length cs"
      using cv unfolding curr_valid_def by blast
    then show False using none by (auto simp: children_of_def)
  qed
  have fresh: "pa \<noteq> next_ref m"
    using wf look by (fastforce simp: wellformed_def refs_bounded_def)
  have key: "pp @ sep @ nm \<noteq> pp" using match_name_nonempty [OF nm] by simp
  show ?thesis
    unfolding m' using cur fresh key look none
    by (auto simp: attached_def children_of_def)
qed

text \<open>The kind of a parent object never changes: no call takes children away or, from
  an object with children, adds or removes \<open>curr\<close>.\<close>

lemma concurrent_kind_attach:
  assumes "pa < next_ref m \<and> children_of m pa \<noteq> [] \<and> curr (heap m pa) = None"
  shows "pa < next_ref (snd (attach q pp sep nm m))
         \<and> children_of (snd (attach q pp sep nm m)) pa \<noteq> []
         \<and> curr (heap (snd (attach q pp sep nm m)) pa) = None"
  by (cases rule: attach_cases [where m = m and pa = q and pp = pp and sep = sep and nm = nm])
     (use assms in \<open>auto simp: attached_def children_of_def split: option.splits\<close>)

lemma variable_kind_attach:
  assumes "pa < next_ref m \<and> curr (heap m pa) \<noteq> None"
  shows "pa < next_ref (snd (attach q pp sep nm m))
         \<and> curr (heap (snd (attach q pp sep nm m)) pa) \<noteq> None"
  by (cases rule: attach_cases [where m = m and pa = q and pp = pp and sep = sep and nm = nm])
     (use assms in \<open>auto simp: attached_def\<close>)

lemma concurrent_kind_perform:
  assumes "pa < next_ref m \<and> children_of m pa \<noteq> [] \<and> curr (heap m pa) = None"
  shows "pa < next_ref (perform c m) \<and> children_of (perform c m) pa \<noteq> []
         \<and> curr (heap (perform c m) pa) = None"
proof (rule perform_preserves
    [of "\<lambda>m. pa < next_ref m \<and> children_of m pa \<noteq> [] \<and> curr (heap m pa) = None"], goal_cases)
  case (1 m q pp sep nm)
  then show ?case using concurrent_kind_attach by blast
next
  case (2 m path nm)
  then show ?case
    by (auto simp: setCurrent_def children_of_def split: option.splits if_splits)
next
  case (3 m path v)
  then show ?case
    by (auto simp: setData_def children_of_def split: option.splits if_splits completion.splits bool.splits)
next
  case (4 m)
  then show ?case by (auto simp: makeEmpty_def children_of_def)
next
  case (5 m b)
  then show ?case by (simp add: children_of_def)
next
  case 6
  show ?case by (rule assms)
qed

lemma variable_kind_perform:
  assumes "pa < next_ref m \<and> curr (heap m pa) \<noteq> None"
  shows "pa < next_ref (perform c m) \<and> curr (heap (perform c m) pa) \<noteq> None"
proof (rule perform_preserves [of "\<lambda>m. pa < next_ref m \<and> curr (heap m pa) \<noteq> None"], goal_cases)
  case (1 m q pp sep nm)
  then show ?case using variable_kind_attach by blast
next
  case (2 m path nm)
  then show ?case
    by (auto simp: setCurrent_def split: option.splits if_splits)
next
  case (3 m path v)
  then show ?case
    by (auto simp: setData_def split: option.splits if_splits completion.splits bool.splits)
next
  case (4 m)
  then show ?case by (auto simp: makeEmpty_def)
next
  case (5 m b)
  then show ?case by simp
next
  case 6
  show ?case by (rule assms)
qed

text \<open>
  What \<open>_addSubState\<close> does enforce, as long as a path keeps its state object. A parent
  that has children and no \<open>curr\<close> got them with the separator \<open>.\<close>, a parent with
  a \<open>curr\<close> got them with \<open>/\<close>: the first child, added to a childless parent, fixes
  which (third part), and no call changes the kind of a parent object afterwards (fourth
  and fifth part). In a reachable machine, adding a child with the other separator to the
  object that the parent path holds fails with the composition reason and leaves the
  machine as it was: in \<open>_addSubState\<close>, and so in \<open>addState\<close> on the path
  \<open>parent separator name\<close> of a state that does not exist yet.
\<close>

lemma object_kind_exclusive:
  "(reachable m \<and> fmlookup (STATE_TREE m) pp = Some pa \<and> children_of m pa \<noteq> []
      \<and> curr (heap m pa) = None \<and> match_name nm
      \<longrightarrow> addSubState_impl pp ''/'' nm m = (Err ConcurrentParentRejectsVariableChild, m)
          \<and> (\<not> live m \<and> normalizePath (Some (pp @ CHR ''/'' # nm)) = Some (pp @ CHR ''/'' # nm)
               \<and> \<not> exists m (pp @ CHR ''/'' # nm) \<and> CHR ''.'' \<notin> set nm \<and> CHR ''/'' \<notin> set nm
               \<longrightarrow> addState (pp @ CHR ''/'' # nm) m = (Err ConcurrentParentRejectsVariableChild, m)))
   \<and> (reachable m2 \<and> fmlookup (STATE_TREE m2) pp2 = Some pa2 \<and> children_of m2 pa2 \<noteq> []
      \<and> curr (heap m2 pa2) \<noteq> None \<and> match_name nm2
      \<longrightarrow> addSubState_impl pp2 ''.'' nm2 m2 = (Err VariableParentRejectsConcurrentChild, m2)
          \<and> (\<not> live m2 \<and> normalizePath (Some (pp2 @ CHR ''.'' # nm2)) = Some (pp2 @ CHR ''.'' # nm2)
               \<and> \<not> exists m2 (pp2 @ CHR ''.'' # nm2) \<and> CHR ''.'' \<notin> set nm2 \<and> CHR ''/'' \<notin> set nm2
               \<longrightarrow> addState (pp2 @ CHR ''.'' # nm2) m2 = (Err VariableParentRejectsConcurrentChild, m2)))
   \<and> (reachable m3 \<and> fmlookup (STATE_TREE m3) pp3 = Some pa3 \<and> children_of m3 pa3 = []
      \<and> addSubState_impl pp3 sep3 nm3 m3 = (Null, m3')
      \<longrightarrow> fmlookup (STATE_TREE m3') pp3 = Some pa3 \<and> children_of m3' pa3 = [nm3]
          \<and> (curr (heap m3' pa3) = None \<longleftrightarrow> sep3 \<noteq> ''/''))
   \<and> (pa4 < next_ref m4 \<and> children_of m4 pa4 \<noteq> [] \<and> curr (heap m4 pa4) = None
      \<longrightarrow> pa4 < next_ref (perform c4 m4) \<and> children_of (perform c4 m4) pa4 \<noteq> []
          \<and> curr (heap (perform c4 m4) pa4) = None)
   \<and> (pa5 < next_ref m5 \<and> curr (heap m5 pa5) \<noteq> None
      \<longrightarrow> pa5 < next_ref (perform c5 m5) \<and> curr (heap (perform c5 m5) pa5) \<noteq> None)"
proof (intro conjI impI)
  assume h: "reachable m \<and> fmlookup (STATE_TREE m) pp = Some pa \<and> children_of m pa \<noteq> []
      \<and> curr (heap m pa) = None \<and> match_name nm"
  then have wf: "wellformed m" using wellformed_reachable by blast
  show a: "addSubState_impl pp ''/'' nm m = (Err ConcurrentParentRejectsVariableChild, m)"
    using reject_variable_child [OF wf] h by blast
  assume "\<not> live m \<and> normalizePath (Some (pp @ CHR ''/'' # nm)) = Some (pp @ CHR ''/'' # nm)
               \<and> \<not> exists m (pp @ CHR ''/'' # nm) \<and> CHR ''.'' \<notin> set nm \<and> CHR ''/'' \<notin> set nm"
  then show "addState (pp @ CHR ''/'' # nm) m = (Err ConcurrentParentRejectsVariableChild, m)"
    using addState_child [of m pp "CHR ''/''" nm] a by simp
next
  assume h: "reachable m2 \<and> fmlookup (STATE_TREE m2) pp2 = Some pa2 \<and> children_of m2 pa2 \<noteq> []
      \<and> curr (heap m2 pa2) \<noteq> None \<and> match_name nm2"
  then have wf: "wellformed m2" using wellformed_reachable by blast
  show a: "addSubState_impl pp2 ''.'' nm2 m2 = (Err VariableParentRejectsConcurrentChild, m2)"
    using reject_concurrent_child [OF wf] h by blast
  assume "\<not> live m2 \<and> normalizePath (Some (pp2 @ CHR ''.'' # nm2)) = Some (pp2 @ CHR ''.'' # nm2)
               \<and> \<not> exists m2 (pp2 @ CHR ''.'' # nm2) \<and> CHR ''.'' \<notin> set nm2 \<and> CHR ''/'' \<notin> set nm2"
  then show "addState (pp2 @ CHR ''.'' # nm2) m2 = (Err VariableParentRejectsConcurrentChild, m2)"
    using addState_child [of m2 pp2 "CHR ''.''" nm2] a by simp
next
  assume h: "reachable m3 \<and> fmlookup (STATE_TREE m3) pp3 = Some pa3 \<and> children_of m3 pa3 = []
      \<and> addSubState_impl pp3 sep3 nm3 m3 = (Null, m3')"
  then have f: "fmlookup (STATE_TREE m3') pp3 = Some pa3 \<and> children_of m3' pa3 = [nm3]
         \<and> (curr (heap m3' pa3) = None \<longleftrightarrow> sep3 \<noteq> ''/'')"
    using first_child_kind [of m3 pp3 pa3 sep3 nm3 m3'] by blast
  from f show "fmlookup (STATE_TREE m3') pp3 = Some pa3" by blast
  from f show "children_of m3' pa3 = [nm3]" by blast
  from f show "(curr (heap m3' pa3) = None) = (sep3 \<noteq> ''/'')" by blast
next
  assume h: "pa4 < next_ref m4 \<and> children_of m4 pa4 \<noteq> [] \<and> curr (heap m4 pa4) = None"
  from concurrent_kind_perform [OF h, of c4]
  show "pa4 < next_ref (perform c4 m4)" "children_of (perform c4 m4) pa4 \<noteq> []"
    "curr (heap (perform c4 m4) pa4) = None" by blast+
next
  assume h: "pa5 < next_ref m5 \<and> curr (heap m5 pa5) \<noteq> None"
  from variable_kind_perform [OF h, of c5]
  show "pa5 < next_ref (perform c5 m5)" "curr (heap (perform c5 m5) pa5) \<noteq> None" by blast+
qed

definition machine_dot :: machine where
  "machine_dot = perform (AddState ''.x.a'') new_Machine"

definition machine_slash :: machine where
  "machine_slash = perform (AddState ''.x/a'') new_Machine"

lemma object_kind_exclusive_example:
  "reachable machine_dot \<and> fmlookup (STATE_TREE machine_dot) ''.x'' = Some 1
   \<and> children_of machine_dot 1 = [''a''] \<and> curr (heap machine_dot 1) = None
   \<and> \<not> live machine_dot \<and> \<not> exists machine_dot ''.x/b''
   \<and> addState ''.x/b'' machine_dot = (Err ConcurrentParentRejectsVariableChild, machine_dot)
   \<and> reachable machine_slash \<and> fmlookup (STATE_TREE machine_slash) ''.x'' = Some 1
   \<and> children_of machine_slash 1 = [''a''] \<and> curr (heap machine_slash 1) = Some 0
   \<and> \<not> live machine_slash \<and> \<not> exists machine_slash ''.x.b''
   \<and> addState ''.x.b'' machine_slash = (Err VariableParentRejectsConcurrentChild, machine_slash)
   \<and> children_of new_Machine 0 = []
   \<and> fst (addSubState_impl [] ''/'' ''x'' new_Machine) = Null
   \<and> children_of (snd (addSubState_impl [] ''/'' ''x'' new_Machine)) 0 = [''x'']
   \<and> curr (heap (snd (addSubState_impl [] ''/'' ''x'' new_Machine)) 0) \<noteq> None
   \<and> 1 < next_ref machine_dot
   \<and> children_of (perform (AddStates [''.x.b'', ''.x/c'']) machine_dot) 1 \<noteq> []
   \<and> curr (heap (perform (AddStates [''.x.b'', ''.x/c'']) machine_dot) 1) = None
   \<and> 1 < next_ref machine_slash
   \<and> curr (heap (perform (SetData ''.x/a'' ''v'') machine_slash) 1) \<noteq> None"
proof -
  have b4: "1 < next_ref machine_dot" by code_simp
  have b5: "1 < next_ref machine_slash" by code_simp
  have r1: "reachable machine_dot" unfolding machine_dot_def by (intro reachable.intros)
  have l1: "fmlookup (STATE_TREE machine_dot) ''.x'' = Some 1" by code_simp
  have k1: "children_of machine_dot 1 = [''a'']" by code_simp
  have c1: "curr (heap machine_dot 1) = None" by code_simp
  have e1: "\<not> live machine_dot" by code_simp
  have x1: "\<not> exists machine_dot ''.x/b''" by code_simp
  have n1: "normalizePath (Some ''.x/b'') = Some ''.x/b''" by code_simp
  have r2: "reachable machine_slash" unfolding machine_slash_def by (intro reachable.intros)
  have l2: "fmlookup (STATE_TREE machine_slash) ''.x'' = Some 1" by code_simp
  have k2: "children_of machine_slash 1 = [''a'']" by code_simp
  have c2: "curr (heap machine_slash 1) = Some 0" by code_simp
  have e2: "\<not> live machine_slash" by code_simp
  have x2: "\<not> exists machine_slash ''.x.b''" by code_simp
  have n2: "normalizePath (Some ''.x.b'') = Some ''.x.b''" by code_simp
  have mn: "match_name ''b''" by code_simp
  have r3: "reachable new_Machine" by (rule reachable.fresh)
  have l3: "fmlookup (STATE_TREE new_Machine) [] = Some 0" by code_simp
  have k3: "children_of new_Machine 0 = []" by code_simp
  have f3: "fst (addSubState_impl [] ''/'' ''x'' new_Machine) = Null" by code_simp
  then have a3: "addSubState_impl [] ''/'' ''x'' new_Machine
                  = (Null, snd (addSubState_impl [] ''/'' ''x'' new_Machine))"
    by (simp add: prod_eq_iff del: addSubState_impl.simps)
  show ?thesis
    using object_kind_exclusive [of machine_dot "''.x''" 1 "''b''" machine_slash "''.x''" 1 "''b''"
        new_Machine "[]" 0 "''/''" "''x''" "snd (addSubState_impl [] ''/'' ''x'' new_Machine)"
        1 machine_dot "AddStates [''.x.b'', ''.x/c'']" 1 machine_slash "SetData ''.x/a'' ''v''"]
      r1 l1 k1 c1 e1 x1 n1 r2 l2 k2 c2 e2 x2 n2 mn r3 l3 k3 f3 a3 b4 b5
    by (simp del: addState_impl.simps addSubState_impl.simps)
qed

text \<open>A path does not keep its state object. The key \<open>.x\<close> followed by a space is
  stored as it is, while \<open>exists\<close> looks for its normal form \<open>.x\<close>; so
  \<open>_addState\<close>, which \<open>addStates\<close> calls on the path as given, takes the stored
  path for a new one and stores a new, childless object under the same key.\<close>

definition machine_variable_parent :: machine where
  "machine_variable_parent = perform (AddState ''.x /a'') new_Machine"

definition machine_rebound :: machine where
  "machine_rebound = perform (AddStates [''.x '']) machine_variable_parent"

text \<open>
  C6. Composition exclusivity fails on the code for a parent, taken as the node at a path.
  The add of \<open>.x /a\<close> makes the node at the path \<open>.x\<close> followed by a space a
  variable parent, and the add of a concurrent child \<open>b\<close> of it is then rejected, as
  it must be. After \<open>addStates\<close> of the parent path the same add succeeds: the two
  children \<open>.x /a\<close> and \<open>.x .b\<close> of the one parent path both exist, joined with
  different separators.
\<close>

theorem composition_exclusivity_rebound:
  "fst (addState ''.x /a'' new_Machine) = Null
   \<and> exists machine_variable_parent ''.x /a''
   \<and> fmlookup (STATE_TREE machine_variable_parent) ''.x '' = Some 1
   \<and> curr (heap machine_variable_parent 1) = Some 0
   \<and> fst (addState ''.x .b'' machine_variable_parent) = Err VariableParentRejectsConcurrentChild
   \<and> fst (addStates [''.x ''] machine_variable_parent) = Null
   \<and> fmlookup (STATE_TREE machine_rebound) ''.x '' = Some 3
   \<and> cc (heap machine_rebound 3) = None
   \<and> fst (addState ''.x .b'' machine_rebound) = Null
   \<and> exists (snd (addState ''.x .b'' machine_rebound)) ''.x /a''
   \<and> exists (snd (addState ''.x .b'' machine_rebound)) ''.x .b''"
  by code_simp

section \<open>The two walks\<close>

text \<open>
  The walk as the specification words it: depth first and parent first, over the children
  that \<open>visit\<close> selects at each state, joined with \<open>/\<close> below a variable parent and
  with \<open>.\<close> below a concurrent one. The walk over all paths selects every child; the
  walk over the active paths selects every child of a concurrent parent and, of a
  variable parent, only the child at \<open>curr\<close>.
\<close>

definition visit_all :: "state \<Rightarrow> string list" where
  "visit_all s = (case cc s of None \<Rightarrow> [] | Some cs \<Rightarrow> cs)"

definition visit_current :: "state \<Rightarrow> string list" where
  "visit_current s =
     (case cc s of None \<Rightarrow> []
      | Some cs \<Rightarrow> (case curr s of None \<Rightarrow> cs | Some i \<Rightarrow> [cs ! i]))"

definition join_char :: "state \<Rightarrow> char" where
  "join_char s = (if curr s \<noteq> None then CHR ''/'' else CHR ''.'')"

lemma not_space_join: "\<not> js_space (join_char s)"
  by (simp add: join_char_def not_space_slash not_space_dot)

function walk :: "(state \<Rightarrow> string list) \<Rightarrow> machine \<Rightarrow> string \<Rightarrow> nat \<Rightarrow> string list" where
  "walk visit m path a =
     concat (map (\<lambda>nm. (path @ join_char (heap m a) # nm) #
               (case getState m (path @ join_char (heap m a) # nm) of None \<Rightarrow> []
                | Some child \<Rightarrow> walk visit m (path @ join_char (heap m a) # nm) child))
             (visit (heap m a)))"
  by pat_completeness auto
termination
proof (relation "measure (\<lambda>(visit, m, path, a). card (keys_above m path))", goal_cases)
  case 1
  show ?case by simp
next
  case (2 visit m path a nm child)
  then show ?case using keys_above_less [OF not_space_join] by simp
qed

lemma walk_join:
  assumes "join_char (heap m a) = c"
  shows "walk visit m path a =
     concat (map (\<lambda>nm. (path @ c # nm) #
               (case getState m (path @ c # nm) of None \<Rightarrow> []
                | Some child \<Rightarrow> walk visit m (path @ c # nm) child))
             (visit (heap m a)))"
  unfolding assms [symmetric] by (rule walk.simps)

lemma appendChildren_walk: "appendChildren_impl m path a = walk visit_all m path a"
proof (induction m path a rule: appendChildren_impl.induct)
  case (1 m path a)
  show ?case
  proof (cases "cc (heap m a)")
    case None
    then show ?thesis
      by (subst appendChildren_impl.simps, subst walk.simps) (simp add: visit_all_def)
  next
    case (Some cs)
    show ?thesis
    proof (cases "curr (heap m a) \<noteq> None")
      case True
      have j: "join_char (heap m a) = CHR ''/''" using True by (simp add: join_char_def)
      have "map (\<lambda>nm. (path @ CHR ''/'' # nm) #
                 (case getState m (path @ CHR ''/'' # nm) of None \<Rightarrow> []
                  | Some child \<Rightarrow> appendChildren_impl m (path @ CHR ''/'' # nm) child)) cs
            = map (\<lambda>nm. (path @ CHR ''/'' # nm) #
                 (case getState m (path @ CHR ''/'' # nm) of None \<Rightarrow> []
                  | Some child \<Rightarrow> walk visit_all m (path @ CHR ''/'' # nm) child)) cs"
        using "1.IH"(1) [OF Some True]
        by (intro map_cong refl) (auto split: option.splits simp del: appendChildren_impl.simps walk.simps)
      then have eq: "concat (map (\<lambda>nm. (path @ CHR ''/'' # nm) #
                 (case getState m (path @ CHR ''/'' # nm) of None \<Rightarrow> []
                  | Some child \<Rightarrow> appendChildren_impl m (path @ CHR ''/'' # nm) child)) cs)
            = concat (map (\<lambda>nm. (path @ CHR ''/'' # nm) #
                 (case getState m (path @ CHR ''/'' # nm) of None \<Rightarrow> []
                  | Some child \<Rightarrow> walk visit_all m (path @ CHR ''/'' # nm) child)) cs)"
        by (rule arg_cong)
      have l: "appendChildren_impl m path a = concat (map (\<lambda>nm. (path @ CHR ''/'' # nm) #
                 (case getState m (path @ CHR ''/'' # nm) of None \<Rightarrow> []
                  | Some child \<Rightarrow> appendChildren_impl m (path @ CHR ''/'' # nm) child)) cs)"
        using Some True
        by (subst appendChildren_impl.simps) (simp del: appendChildren_impl.simps)
      have r: "walk visit_all m path a = concat (map (\<lambda>nm. (path @ CHR ''/'' # nm) #
                 (case getState m (path @ CHR ''/'' # nm) of None \<Rightarrow> []
                  | Some child \<Rightarrow> walk visit_all m (path @ CHR ''/'' # nm) child)) cs)"
        using Some True
        by (subst walk_join [OF j]) (simp add: visit_all_def del: walk.simps)
      show ?thesis by (simp only: l r eq)
    next
      case False
      have j: "join_char (heap m a) = CHR ''.''" using False by (simp add: join_char_def)
      have "map (\<lambda>nm. (path @ CHR ''.'' # nm) #
                 (case getState m (path @ CHR ''.'' # nm) of None \<Rightarrow> []
                  | Some child \<Rightarrow> appendChildren_impl m (path @ CHR ''.'' # nm) child)) cs
            = map (\<lambda>nm. (path @ CHR ''.'' # nm) #
                 (case getState m (path @ CHR ''.'' # nm) of None \<Rightarrow> []
                  | Some child \<Rightarrow> walk visit_all m (path @ CHR ''.'' # nm) child)) cs"
        using "1.IH"(2) [OF Some False]
        by (intro map_cong refl) (auto split: option.splits simp del: appendChildren_impl.simps walk.simps)
      then have eq: "concat (map (\<lambda>nm. (path @ CHR ''.'' # nm) #
                 (case getState m (path @ CHR ''.'' # nm) of None \<Rightarrow> []
                  | Some child \<Rightarrow> appendChildren_impl m (path @ CHR ''.'' # nm) child)) cs)
            = concat (map (\<lambda>nm. (path @ CHR ''.'' # nm) #
                 (case getState m (path @ CHR ''.'' # nm) of None \<Rightarrow> []
                  | Some child \<Rightarrow> walk visit_all m (path @ CHR ''.'' # nm) child)) cs)"
        by (rule arg_cong)
      have l: "appendChildren_impl m path a = concat (map (\<lambda>nm. (path @ CHR ''.'' # nm) #
                 (case getState m (path @ CHR ''.'' # nm) of None \<Rightarrow> []
                  | Some child \<Rightarrow> appendChildren_impl m (path @ CHR ''.'' # nm) child)) cs)"
        using Some False
        by (subst appendChildren_impl.simps) (simp del: appendChildren_impl.simps)
      have r: "walk visit_all m path a = concat (map (\<lambda>nm. (path @ CHR ''.'' # nm) #
                 (case getState m (path @ CHR ''.'' # nm) of None \<Rightarrow> []
                  | Some child \<Rightarrow> walk visit_all m (path @ CHR ''.'' # nm) child)) cs)"
        using Some False
        by (subst walk_join [OF j]) (simp add: visit_all_def del: walk.simps)
      show ?thesis by (simp only: l r eq)
    qed
  qed
qed

lemma appendCurrentChildren_walk:
  "curr_valid m \<Longrightarrow> names_nonempty m
   \<Longrightarrow> appendCurrentChildren_impl m path a = walk visit_current m path a"
proof (induction m path a rule: appendCurrentChildren_impl.induct)
  case (1 m path a)
  show ?case
  proof (cases "cc (heap m a)")
    case None
    then show ?thesis
      by (subst appendCurrentChildren_impl.simps, subst walk.simps) (simp add: visit_current_def)
  next
    case (Some cs)
    show ?thesis
    proof (cases "curr (heap m a)")
      case None
      have j: "join_char (heap m a) = CHR ''.''" using None by (simp add: join_char_def)
      have "map (\<lambda>nm. (path @ CHR ''.'' # nm) #
                 (case getState m (path @ CHR ''.'' # nm) of None \<Rightarrow> []
                  | Some child \<Rightarrow> appendCurrentChildren_impl m (path @ CHR ''.'' # nm) child)) cs
            = map (\<lambda>nm. (path @ CHR ''.'' # nm) #
                 (case getState m (path @ CHR ''.'' # nm) of None \<Rightarrow> []
                  | Some child \<Rightarrow> walk visit_current m (path @ CHR ''.'' # nm) child)) cs"
        using "1.IH"(1) [OF Some None] "1.prems"
        by (intro map_cong refl)
           (auto split: option.splits simp del: appendCurrentChildren_impl.simps walk.simps)
      then have eq: "concat (map (\<lambda>nm. (path @ CHR ''.'' # nm) #
                 (case getState m (path @ CHR ''.'' # nm) of None \<Rightarrow> []
                  | Some child \<Rightarrow> appendCurrentChildren_impl m (path @ CHR ''.'' # nm) child)) cs)
            = concat (map (\<lambda>nm. (path @ CHR ''.'' # nm) #
                 (case getState m (path @ CHR ''.'' # nm) of None \<Rightarrow> []
                  | Some child \<Rightarrow> walk visit_current m (path @ CHR ''.'' # nm) child)) cs)"
        by (rule arg_cong)
      have l: "appendCurrentChildren_impl m path a = concat (map (\<lambda>nm. (path @ CHR ''.'' # nm) #
                 (case getState m (path @ CHR ''.'' # nm) of None \<Rightarrow> []
                  | Some child \<Rightarrow> appendCurrentChildren_impl m (path @ CHR ''.'' # nm) child)) cs)"
        using Some None
        by (subst appendCurrentChildren_impl.simps) (simp del: appendCurrentChildren_impl.simps)
      have r: "walk visit_current m path a = concat (map (\<lambda>nm. (path @ CHR ''.'' # nm) #
                 (case getState m (path @ CHR ''.'' # nm) of None \<Rightarrow> []
                  | Some child \<Rightarrow> walk visit_current m (path @ CHR ''.'' # nm) child)) cs)"
        using Some None
        by (subst walk_join [OF j]) (simp add: visit_current_def del: walk.simps)
      show ?thesis by (simp only: l r eq)
    next
      case (Some i)
      have j: "join_char (heap m a) = CHR ''/''" using Some by (simp add: join_char_def)
      have i: "i < length cs" using "1.prems"(1) \<open>cc (heap m a) = Some cs\<close> Some
        unfolding curr_valid_def by fastforce
      then have "cs ! i \<in> set cs" by simp
      then have ne: "cs ! i \<noteq> []" using "1.prems"(2) \<open>cc (heap m a) = Some cs\<close>
        unfolding names_nonempty_def by metis
      have "(case getState m (path @ CHR ''/'' # cs ! i) of None \<Rightarrow> []
             | Some child \<Rightarrow> appendCurrentChildren_impl m (path @ CHR ''/'' # cs ! i) child)
            = (case getState m (path @ CHR ''/'' # cs ! i) of None \<Rightarrow> []
             | Some child \<Rightarrow> walk visit_current m (path @ CHR ''/'' # cs ! i) child)"
        using "1.IH"(2) [OF \<open>cc (heap m a) = Some cs\<close> Some] i ne "1.prems"
        by (auto split: option.splits simp del: appendCurrentChildren_impl.simps walk.simps)
      then show ?thesis
        using \<open>cc (heap m a) = Some cs\<close> Some i ne
        by (subst appendCurrentChildren_impl.simps, subst walk_join [OF j])
           (simp add: visit_current_def del: appendCurrentChildren_impl.simps walk.simps)
    qed
  qed
qed

text \<open>The active paths are among all the paths, in the same order.\<close>

lemma subseq_concat_map:
  "(\<And>x. x \<in> set xs \<Longrightarrow> subseq (f x) (g x)) \<Longrightarrow> subseq (concat (map f xs)) (concat (map g xs))"
  by (induction xs) (auto intro: list_emb_append_mono)

lemma subseq_concat_member:
  assumes "x \<in> set xs"
  shows "subseq (g x) (concat (map g xs))"
proof -
  obtain ys zs where "xs = ys @ x # zs" using assms by (auto simp: in_set_conv_decomp)
  then have "concat (map g xs) = concat (map g ys) @ g x @ concat (map g zs)" by simp
  then show ?thesis by (simp add: list_emb_append2 list_emb_prefix)
qed

lemma subseq_current_all:
  "subseq (appendCurrentChildren_impl m path a) (appendChildren_impl m path a)"
proof (induction m path a rule: appendCurrentChildren_impl.induct)
  case (1 m path a)
  show ?case
  proof (cases "cc (heap m a)")
    case None
    then show ?thesis
      by (subst appendCurrentChildren_impl.simps) simp
  next
    case (Some cs)
    show ?thesis
    proof (cases "curr (heap m a)")
      case None
      let ?f = "\<lambda>nm. (path @ CHR ''.'' # nm) #
                 (case getState m (path @ CHR ''.'' # nm) of None \<Rightarrow> []
                  | Some child \<Rightarrow> appendCurrentChildren_impl m (path @ CHR ''.'' # nm) child)"
      let ?g = "\<lambda>nm. (path @ CHR ''.'' # nm) #
                 (case getState m (path @ CHR ''.'' # nm) of None \<Rightarrow> []
                  | Some child \<Rightarrow> appendChildren_impl m (path @ CHR ''.'' # nm) child)"
      have l: "appendCurrentChildren_impl m path a = concat (map ?f cs)"
        using Some None
        by (subst appendCurrentChildren_impl.simps) (simp del: appendCurrentChildren_impl.simps)
      have r: "appendChildren_impl m path a = concat (map ?g cs)"
        using Some None
        by (subst appendChildren_impl.simps) (simp del: appendChildren_impl.simps)
      have "subseq (?f nm) (?g nm)" if "nm \<in> set cs" for nm
        using "1.IH"(1) [OF Some None that]
        by (cases "getState m (path @ CHR ''.'' # nm)")
           (simp_all del: appendCurrentChildren_impl.simps appendChildren_impl.simps)
      then have "subseq (concat (map ?f cs)) (concat (map ?g cs))"
        by (rule subseq_concat_map)
      then show ?thesis by (simp only: l r)
    next
      case (Some i)
      note cs = \<open>cc (heap m a) = Some cs\<close>
      let ?g = "\<lambda>nm. (path @ CHR ''/'' # nm) #
                 (case getState m (path @ CHR ''/'' # nm) of None \<Rightarrow> []
                  | Some child \<Rightarrow> appendChildren_impl m (path @ CHR ''/'' # nm) child)"
      have r: "appendChildren_impl m path a = concat (map ?g cs)"
        using cs Some
        by (subst appendChildren_impl.simps) (simp del: appendChildren_impl.simps)
      show ?thesis
      proof (cases "i < length cs \<and> cs ! i \<noteq> []")
        case False
        then have "appendCurrentChildren_impl m path a = []"
          using cs Some
          by (subst appendCurrentChildren_impl.simps) (auto simp del: appendCurrentChildren_impl.simps)
        then show ?thesis by simp
      next
        case True
        have l: "appendCurrentChildren_impl m path a =
                   (path @ CHR ''/'' # cs ! i) #
                   (case getState m (path @ CHR ''/'' # cs ! i) of None \<Rightarrow> []
                    | Some child \<Rightarrow> appendCurrentChildren_impl m (path @ CHR ''/'' # cs ! i) child)"
          using cs Some True
          by (subst appendCurrentChildren_impl.simps) (simp del: appendCurrentChildren_impl.simps)
        have "subseq (appendCurrentChildren_impl m path a) (?g (cs ! i))"
          unfolding l using "1.IH"(2) [OF cs Some True]
          by (cases "getState m (path @ CHR ''/'' # cs ! i)")
             (simp_all del: appendCurrentChildren_impl.simps appendChildren_impl.simps)
        moreover have "subseq (?g (cs ! i)) (concat (map ?g cs))"
          using True by (intro subseq_concat_member) simp
        ultimately show ?thesis unfolding r by (rule subseq_order.trans)
      qed
    qed
  qed
qed

definition machine_a_xy :: machine where
  "machine_a_xy =
     perform FinishEditing (perform (AddState ''.a/y'') (perform (AddState ''.a/x'')
       (perform (AddState ''.a'') new_Machine)))"

text \<open>
  C8. In every reachable machine \<open>getAllPaths\<close> is the root followed by the walk that
  visits every child, and \<open>getCurrentPaths\<close> is the root followed by the same walk
  visiting every child of a concurrent parent and only the child at \<open>curr\<close> of a
  variable parent; in every machine the active paths are a subsequence of all the paths;
  and after the adds of \<open>.a\<close>, \<open>.a/x\<close> and \<open>.a/y\<close> the active paths are the
  root, \<open>.a\<close> and \<open>.a/x\<close>, and after \<open>setCurrent(".a", "y")\<close> the root, \<open>.a\<close>
  and \<open>.a/y\<close>.
\<close>

theorem active_walk:
  "(reachable m \<longrightarrow>
      (\<exists>r. fmlookup (STATE_TREE m) [] = Some r
           \<and> getAllPaths m = Returns ([] # walk visit_all m [] r)
           \<and> getCurrentPaths m = Returns ([] # walk visit_current m [] r)))
   \<and> (getAllPaths m1 = Returns every \<and> getCurrentPaths m1 = Returns active
        \<longrightarrow> subseq active every)
   \<and> getCurrentPaths machine_a_xy = Returns [[], ''.a'', ''.a/x'']
   \<and> getCurrentPaths (perform (SetCurrent ''.a'' ''y'') machine_a_xy)
        = Returns [[], ''.a'', ''.a/y'']"
proof (intro conjI impI)
  assume r: "reachable m"
  have wf: "wellformed m" using r by (rule wellformed_reachable)
  have cv: "curr_valid m" using r by (rule curr_valid_reachable)
  obtain ro where ro: "fmlookup (STATE_TREE m) [] = Some ro"
    using wf by (auto simp: wellformed_def root_only_orphan_def)
  then have g: "getState m [] = Some ro" by (simp add: getState_def normalizePath_def)
  have nn: "names_nonempty m" using wf by (simp add: wellformed_def)
  show "\<exists>r. fmlookup (STATE_TREE m) [] = Some r
           \<and> getAllPaths m = Returns ([] # walk visit_all m [] r)
           \<and> getCurrentPaths m = Returns ([] # walk visit_current m [] r)"
    using ro g appendChildren_walk [of m "[]" ro] appendCurrentChildren_walk [OF cv nn, of "[]" ro]
    by (simp add: getAllPaths_def getCurrentPaths_def
        del: appendChildren_impl.simps appendCurrentChildren_impl.simps walk.simps)
next
  assume "getAllPaths m1 = Returns every \<and> getCurrentPaths m1 = Returns active"
  then show "subseq active every"
    using subseq_current_all [of m1 "[]"]
    by (auto simp: getAllPaths_def getCurrentPaths_def split: option.splits
        simp del: appendChildren_impl.simps appendCurrentChildren_impl.simps)
next
  show "getCurrentPaths machine_a_xy = Returns [[], ''.a'', ''.a/x'']" by code_simp
next
  show "getCurrentPaths (perform (SetCurrent ''.a'' ''y'') machine_a_xy)
        = Returns [[], ''.a'', ''.a/y'']" by code_simp
qed

theorem active_walk_witness:
  "reachable machine_a_xy
   \<and> fmlookup (STATE_TREE machine_a_xy) [] = Some 0
   \<and> getAllPaths machine_a_xy = Returns [[], ''.a'', ''.a/x'', ''.a/y'']
   \<and> getCurrentPaths machine_a_xy = Returns [[], ''.a'', ''.a/x'']
   \<and> subseq [[], ''.a'', ''.a/x''] [[], ''.a'', ''.a/x'', ''.a/y'']
   \<and> [[], ''.a'', ''.a/x'', ''.a/y''] = [] # walk visit_all machine_a_xy [] 0
   \<and> [[], ''.a'', ''.a/x''] = [] # walk visit_current machine_a_xy [] 0"
proof -
  have r: "reachable machine_a_xy" unfolding machine_a_xy_def by (intro reachable.intros)
  have l: "fmlookup (STATE_TREE machine_a_xy) [] = Some 0" by code_simp
  have a: "getAllPaths machine_a_xy = Returns [[], ''.a'', ''.a/x'', ''.a/y'']" by code_simp
  have c: "getCurrentPaths machine_a_xy = Returns [[], ''.a'', ''.a/x'']" by code_simp
  note t = active_walk [of machine_a_xy machine_a_xy "[[], ''.a'', ''.a/x'', ''.a/y'']"
      "[[], ''.a'', ''.a/x'']"]
  have s: "subseq [[], ''.a'', ''.a/x''] [[], ''.a'', ''.a/x'', ''.a/y'']"
    using t a c by blast
  have "\<exists>r. fmlookup (STATE_TREE machine_a_xy) [] = Some r
           \<and> getAllPaths machine_a_xy = Returns ([] # walk visit_all machine_a_xy [] r)
           \<and> getCurrentPaths machine_a_xy = Returns ([] # walk visit_current machine_a_xy [] r)"
    using t r by blast
  then have "getAllPaths machine_a_xy = Returns ([] # walk visit_all machine_a_xy [] 0)"
    and "getCurrentPaths machine_a_xy = Returns ([] # walk visit_current machine_a_xy [] 0)"
    using l by (auto simp del: walk.simps)
  then have "[[], ''.a'', ''.a/x'', ''.a/y''] = [] # walk visit_all machine_a_xy [] 0"
    and "[[], ''.a'', ''.a/x''] = [] # walk visit_current machine_a_xy [] 0"
    using a c by (simp_all del: walk.simps)
  then show ?thesis using r l a c s by blast
qed

section \<open>Serialization and replay\<close>

text \<open>A machine built with the line protocol alone: the root is a variable parent with
  the children \<open>x\<close> and \<open>y\<close>, and \<open>y\<close> is selected.\<close>

definition machine_root_choice :: machine where
  "machine_root_choice = snd (interpretAll [''P /x'', ''P /y'', ''C / y''] new_Machine)"

text \<open>
  C1. The replay of the serialization does not give back the current selection of that
  machine. The line that \<open>getSerialization\<close> writes for the selection of a child of the
  root is \<open>C\<close>, a space, the empty parent path, a space and the name: \<open>Machine.CPAT\<close>
  does not match it, so the replay leaves the selection at the first child. (The first
  line, \<open>P\<close> and a space for the root, fails in the replay as well, without effect.)
\<close>

theorem roundtrip_root_selection_lost:
  "fst (interpretAll [''P /x'', ''P /y'', ''C / y''] new_Machine) = Undefined
   \<and> getAllPaths machine_root_choice = Returns [[], ''/x'', ''/y'']
   \<and> getCurrentPaths machine_root_choice = Returns [[], ''/y'']
   \<and> getSerialization machine_root_choice = Returns [''P '', ''P /x'', ''P /y'', ''C  y'']
   \<and> fst (interpretOp (Some ''C  y'') machine_root_choice) = Err (CSyntax ''C  y'')
   \<and> getAllPaths (snd (interpretAll [''P '', ''P /x'', ''P /y'', ''C  y''] new_Machine))
        = Returns [[], ''/x'', ''/y'']
   \<and> getCurrentPaths (snd (interpretAll [''P '', ''P /x'', ''P /y'', ''C  y''] new_Machine))
        = Returns [[], ''/x'']"
  by code_simp

text \<open>The scenario of the repository's own test of serialization does come back from
  the replay: same paths, same active paths, same data.\<close>

definition machine_test_scenario :: machine where
  "machine_test_scenario =
     snd (interpretAll [''P .j/k.foo'', ''P .j/l.bar'', ''C .j l'', ''P .z'', ''D .z zebra'']
            new_Machine)"

lemma roundtrip_test_scenario:
  "getSerialization machine_test_scenario
     = Returns [''P '', ''P .j'', ''P .j/k'', ''P .j/k.foo'', ''P .j/l'', ''C .j l'',
                ''P .j/l.bar'', ''P .z'', ''D .z zebra'']
   \<and> getAllPaths (snd (interpretAll [''P '', ''P .j'', ''P .j/k'', ''P .j/k.foo'', ''P .j/l'',
          ''C .j l'', ''P .j/l.bar'', ''P .z'', ''D .z zebra''] new_Machine))
       = getAllPaths machine_test_scenario
   \<and> getCurrentPaths (snd (interpretAll [''P '', ''P .j'', ''P .j/k'', ''P .j/k.foo'', ''P .j/l'',
          ''C .j l'', ''P .j/l.bar'', ''P .z'', ''D .z zebra''] new_Machine))
       = Returns [[], ''.j'', ''.j/l'', ''.j/l.bar'', ''.z'']
   \<and> getCurrentPaths machine_test_scenario = Returns [[], ''.j'', ''.j/l'', ''.j/l.bar'', ''.z'']
   \<and> getData (snd (interpretAll [''P '', ''P .j'', ''P .j/k'', ''P .j/k.foo'', ''P .j/l'',
          ''C .j l'', ''P .j/l.bar'', ''P .z'', ''D .z zebra''] new_Machine)) ''.z''
       = Returns (Some ''zebra'')"
  by code_simp


end
